theory Spec2Isabelle
  imports Main
begin

section \<open>Data model of the sea-battle program\<close>

text \<open>
  The three exception classes derived from \<open>BoardException\<close>.
\<close>

datatype error = BoardOutException | BoardBusyException | BoardShipFailureException

text \<open>
  Class \<open>Dot\<close>: a pair of Python integers with structural equality (\<open>__eq__\<close>
  compares \<open>x\<close> and \<open>y\<close>). The attributes \<open>x\<close> and \<open>y\<close> are the selectors
  \<open>dot_x\<close> and \<open>dot_y\<close>.
\<close>

datatype dot = Dot (dot_x: int) (dot_y: int)

text \<open>
  Class \<open>Ship\<close>. The attribute \<open>length\<close> is the field \<open>length_ship\<close>. The
  constructor sets \<open>lives\<close> to the length; \<open>Board.shot\<close> later decrements it.
\<close>

record ship =
  start :: dot
  horizontal :: bool
  length_ship :: int
  lives :: int

definition Ship :: "dot \<Rightarrow> bool \<Rightarrow> int \<Rightarrow> ship" where
  "Ship st h l = \<lparr>start = st, horizontal = h, length_ship = l, lives = l\<rparr>"

text \<open>
  Property \<open>Ship.dots\<close>: one dot for each \<open>i\<close> in \<open>range(self.length)\<close>, stepping
  along the column index when the ship is horizontal and along the row index otherwise.
\<close>

definition dots :: "ship \<Rightarrow> dot list" where
  "dots s = map (\<lambda>i. if horizontal s
                       then Dot (dot_x (start s)) (dot_y (start s) + i)
                       else Dot (dot_x (start s) + i) (dot_y (start s)))
                [0..length_ship s - 1]"

definition is_hit :: "ship \<Rightarrow> dot \<Rightarrow> bool" where
  "is_hit s d = (d \<in> set (dots s))"

text \<open>
  The four one-character strings that \<open>Board.field\<close> holds: \<open>"O"\<close> (fresh cell),
  the black square (deck of a ship), \<open>"X"\<close> (hit deck) and \<open>"."\<close> (miss, or margin of
  a sunk ship).
\<close>

datatype cell = CellO | CellShip | CellX | CellPoint

text \<open>
  Class \<open>Board\<close>. The attribute \<open>size\<close> is the field \<open>size_board\<close>;
  \<open>busy\<close> and \<open>ships\<close> are Python lists and stay lists here.
\<close>

record board =
  size_board :: int
  field :: "cell list list"
  busy :: "dot list"
  ships :: "ship list"
  count :: int
  is_hidden :: bool

definition Board :: "int \<Rightarrow> bool \<Rightarrow> board" where
  "Board n hid = \<lparr>size_board = n,
                  field = replicate (nat n) (replicate (nat n) CellO),
                  busy = [], ships = [], count = 0, is_hidden = hid\<rparr>"

text \<open>
  \<open>Board.__init__\<close> builds \<open>field\<close> as \<open>size\<close> rows of \<open>size\<close> cells and no
  method changes that shape; \<open>wf_board\<close> states it. Every assignment
  \<open>self.field[d.x][d.y] = ...\<close> of the source is reached only after \<open>is_out\<close> has
  answered \<open>False\<close> for the dot, so on such a board the indices are in range (and not
  negative); \<open>set_cell\<close> is that assignment.
\<close>

definition wf_board :: "board \<Rightarrow> bool" where
  "wf_board b = (length (field b) = nat (size_board b) \<and>
                 list_all (\<lambda>row. length row = nat (size_board b)) (field b))"

definition is_out :: "board \<Rightarrow> dot \<Rightarrow> bool" where
  "is_out b d = (\<not> ((0 \<le> dot_x d \<and> dot_x d < size_board b) \<and>
                      (0 \<le> dot_y d \<and> dot_y d < size_board b)))"

definition set_cell :: "cell list list \<Rightarrow> dot \<Rightarrow> cell \<Rightarrow> cell list list" where
  "set_cell fld d v = fld[nat (dot_x d) := (fld ! nat (dot_x d))[nat (dot_y d) := v]]"

section \<open>Board operations\<close>

text \<open>
  \<open>Board.contour\<close>: the two nested \<open>for\<close> loops over
  \<open>range(x - 1, x + 2)\<close> and \<open>range(y - 1, y + ship.length + 1)\<close>;
  \<open>contour_step\<close> is the loop body for the dot \<open>cur\<close>.
\<close>

definition contour_step :: "bool \<Rightarrow> dot \<Rightarrow> board \<Rightarrow> board" where
  "contour_step is_visible cur b =
     (if is_out b cur \<or> cur \<in> set (busy b) then b
      else b\<lparr>field := (if is_visible then set_cell (field b) cur CellPoint else field b),
             busy := busy b @ [cur]\<rparr>)"

definition contour :: "board \<Rightarrow> ship \<Rightarrow> bool \<Rightarrow> board" where
  "contour b s is_visible =
     (let x0 = (if horizontal s then dot_x (start s) else dot_y (start s));
          y0 = (if horizontal s then dot_y (start s) else dot_x (start s))
      in fold (\<lambda>i. fold (\<lambda>j. contour_step is_visible
                                 (if horizontal s then Dot i j else Dot j i))
                         [y0 - 1..y0 + length_ship s])
              [x0 - 1..x0 + 1] b)"

text \<open>
  \<open>Board.add_ship\<close>. The first loop only checks (\<open>check_dots\<close>), the second loop
  writes the decks (\<open>place_dot\<close> is its body). The result pairs the outcome (the
  exception raised, or the return of \<open>None\<close>) with the board as the call leaves it.
\<close>

fun check_dots :: "board \<Rightarrow> dot list \<Rightarrow> error option" where
  "check_dots b [] = None"
| "check_dots b (d # ds) =
     (if is_out b d \<or> d \<in> set (busy b) then Some BoardShipFailureException
      else check_dots b ds)"

definition place_dot :: "dot \<Rightarrow> board \<Rightarrow> board" where
  "place_dot d b = b\<lparr>field := set_cell (field b) d CellShip, busy := busy b @ [d]\<rparr>"

definition add_ship :: "board \<Rightarrow> ship \<Rightarrow> (error + unit) \<times> board" where
  "add_ship b s =
     (case check_dots b (dots s) of
        Some e \<Rightarrow> (Inl e, b)
      | None \<Rightarrow>
          (let b1 = fold place_dot (dots s) b;
               b2 = contour b1 s False
           in (Inr (), b2\<lparr>ships := ships b2 @ [s]\<rparr>)))"

text \<open>
  \<open>Board.shot\<close>. \<open>shot_loop\<close> is the \<open>for ship in self.ships\<close> loop with both of
  its \<open>return\<close>s, followed by the code after the loop; \<open>pre\<close> holds the ships the
  loop has already passed, so that the decrement lands on the ship object inside the
  list. The result pairs the outcome with the board as the call leaves it.
\<close>

fun shot_loop :: "dot \<Rightarrow> ship list \<Rightarrow> ship list \<Rightarrow> board \<Rightarrow> bool \<times> board" where
  "shot_loop d pre [] b = (False, b\<lparr>field := set_cell (field b) d CellPoint\<rparr>)"
| "shot_loop d pre (s # rest) b =
     (if is_hit s d then
        (let s' = s\<lparr>lives := lives s - 1\<rparr>;
             b1 = b\<lparr>field := set_cell (field b) d CellX, ships := pre @ s' # rest\<rparr>
         in if lives s' > 0 then (True, b1)
            else (False, contour (b1\<lparr>count := count b1 + 1\<rparr>) s' True))
      else shot_loop d (pre @ [s]) rest b)"

definition shot :: "board \<Rightarrow> dot \<Rightarrow> (error + bool) \<times> board" where
  "shot b d =
     (if is_out b d then (Inl BoardOutException, b)
      else if d \<in> set (busy b) then (Inl BoardBusyException, b)
      else (let rb = shot_loop d [] (ships b) (b\<lparr>busy := busy b @ [d]\<rparr>)
            in (Inr (fst rb), snd rb)))"

definition begin_board :: "board \<Rightarrow> board" where
  "begin_board b = b\<lparr>busy := []\<rparr>"

section \<open>The computer player\<close>

text \<open>
  \<open>AI.ai_brain\<close>, with \<open>self.prev\<close> as the first argument. The list
  comprehensions over \<open>range\<close> are maps over integer intervals.
\<close>

definition ai_brain :: "dot list \<Rightarrow> board \<Rightarrow> dot list" where
  "ai_brain prev enemy =
     (if length prev = 2 then
        (let p0 = prev ! 0; p1 = prev ! 1;
             shot_set =
               (if dot_x p0 = dot_x p1
                then [Dot (dot_x p0) (min (dot_y p0) (dot_y p1) - 1),
                      Dot (dot_x p0) (max (dot_y p0) (dot_y p1) + 1)]
                else [Dot (min (dot_x p0) (dot_x p1) - 1) (dot_y p0),
                      Dot (max (dot_x p0) (dot_x p1) + 1) (dot_y p0)])
         in filter (\<lambda>c. c \<notin> set (busy enemy)) shot_set)
      else if length prev = 1 then
        (let p0 = prev ! 0;
             shot_set = [Dot (dot_x p0 + 1) (dot_y p0),
                         Dot (dot_x p0 - 1) (dot_y p0),
                         Dot (dot_x p0) (dot_y p0 + 1),
                         Dot (dot_x p0) (dot_y p0 - 1)]
         in filter (\<lambda>c. c \<notin> set (busy enemy)) shot_set)
      else
        (let shot_set = filter (\<lambda>c. c \<notin> set (busy enemy))
                          (map (\<lambda>i. Dot i i) [0..5] @
                           map (\<lambda>i. Dot i (i + 3)) [0..2] @
                           map (\<lambda>i. Dot (i + 3) i) [0..2])
         in if shot_set \<noteq> [] then shot_set
            else
              (let shot_set2 = filter (\<lambda>c. c \<notin> set (busy enemy))
                                 (map (\<lambda>i. Dot i (i - 1)) [1..5] @
                                  map (\<lambda>i. Dot i (i + 2)) [0..3] @
                                  [Dot 0 5, Dot 5 0])
               in if shot_set2 \<noteq> [] then shot_set2
                  else filter (\<lambda>c. c \<notin> set (busy enemy))
                         (concat (map (\<lambda>i. map (\<lambda>j. Dot i j) [0..5]) [0..5])))))"

section \<open>Setting up and playing a game\<close>

text \<open>
  \<open>Game.try_board\<close> on a board of size \<open>n\<close>. The random draws are an argument:
  for each length of the fleet the list of the draws (start dot and orientation) of the
  successive attempts, of which the loop uses at most 2000. \<open>try_ship\<close> is the inner
  loop, \<open>place_fleet\<close> the outer loop over \<open>lens\<close>; \<open>None\<close> is the return of
  \<open>None\<close>, after which \<open>random_board\<close> starts over.
\<close>

fun try_ship :: "board \<Rightarrow> int \<Rightarrow> (dot \<times> bool) list \<Rightarrow> board option" where
  "try_ship b l [] = None"
| "try_ship b l ((st, h) # attempts) =
     (case add_ship b (Ship st h l) of
        (Inr u, b') \<Rightarrow> Some b'
      | (Inl e, b') \<Rightarrow> try_ship b' l attempts)"

fun place_fleet :: "board \<Rightarrow> int list \<Rightarrow> (dot \<times> bool) list list \<Rightarrow> board option" where
  "place_fleet b [] rnd = Some b"
| "place_fleet b (l # ls) [] = None"
| "place_fleet b (l # ls) (attempts # rnd) =
     (case try_ship b l (take 2000 attempts) of
        None \<Rightarrow> None
      | Some b' \<Rightarrow> place_fleet b' ls rnd)"

definition try_board :: "int \<Rightarrow> (dot \<times> bool) list list \<Rightarrow> board option" where
  "try_board n rnd =
     (case place_fleet (Board n False) [3, 2, 2, 1, 1, 1, 1] rnd of
        None \<Rightarrow> None
      | Some b \<Rightarrow> Some (begin_board b))"

text \<open>
  The computer's side of the game. The board it shoots at is the user's board, which no
  one else shoots at. \<open>Asking is_sunk enemy prev\<close>: inside \<open>Player.move\<close>, about to
  call \<open>ask\<close>, with the counter value \<open>is_sunk\<close> taken at the start of the move;
  \<open>Over\<close>: \<open>Game.loop\<close> has seen the counter of the user's board at 7 and stopped;
  \<open>Crashed\<close>: \<open>choice\<close> was given an empty list and raised. \<open>ai_step r\<close> is
  one pass through the body of the loop of \<open>move\<close>, \<open>choice\<close> drawing the index
  \<open>r\<close>: a shot that raises leads back to \<open>ask\<close>; a shot that returns ends the move,
  and the next move of the computer starts unless the game is over.
\<close>

datatype game = Asking int board "dot list" | Over board | Crashed

fun ai_step :: "nat \<Rightarrow> game \<Rightarrow> game" where
  "ai_step r (Asking is_sunk enemy prev) =
     (let shot_set = ai_brain prev enemy
      in if shot_set = [] then Crashed
         else
           (let target = shot_set ! (r mod length shot_set)
            in case shot enemy target of
                 (Inl e, enemy') \<Rightarrow> Asking is_sunk enemy' prev
               | (Inr repeat, enemy') \<Rightarrow>
                   (let prev1 = (if repeat then prev @ [target] else prev);
                        prev2 = (if is_sunk \<noteq> count enemy' then [] else prev1)
                    in if count enemy' = 7 then Over enemy'
                       else Asking (count enemy') enemy' prev2)))"
| "ai_step r (Over enemy) = Over enemy"
| "ai_step r Crashed = Crashed"

definition ai_run :: "nat list \<Rightarrow> game \<Rightarrow> game" where
  "ai_run rs g = fold ai_step rs g"

section \<open>Notions of the specification\<close>

text \<open>
  The four orthogonal neighbours of a dot (cross phase), and the two dots one step
  beyond the ends of the line through two hits (bracket phase): in the row of the
  hits when they share a row, else in the column of the first hit, which for colinear
  hits is the column of both.
\<close>

definition neighbours4 :: "dot \<Rightarrow> dot set" where
  "neighbours4 p = {Dot (dot_x p + 1) (dot_y p), Dot (dot_x p - 1) (dot_y p),
                    Dot (dot_x p) (dot_y p + 1), Dot (dot_x p) (dot_y p - 1)}"

definition bracket_ends :: "dot \<Rightarrow> dot \<Rightarrow> dot set" where
  "bracket_ends p0 p1 =
     (if dot_x p0 = dot_x p1
      then {Dot (dot_x p0) (min (dot_y p0) (dot_y p1) - 1),
            Dot (dot_x p0) (max (dot_y p0) (dot_y p1) + 1)}
      else {Dot (min (dot_x p0) (dot_x p1) - 1) (dot_y p0),
            Dot (max (dot_x p0) (dot_x p1) + 1) (dot_y p0)})"

text \<open>
  The two diagonal patterns of the search phase written out cell by cell, and the
  cells of the 6 by 6 grid.
\<close>

definition stripes1 :: "dot set" where
  "stripes1 = {Dot 0 0, Dot 1 1, Dot 2 2, Dot 3 3, Dot 4 4, Dot 5 5,
               Dot 0 3, Dot 1 4, Dot 2 5, Dot 3 0, Dot 4 1, Dot 5 2}"

definition stripes2 :: "dot set" where
  "stripes2 = {Dot 1 0, Dot 2 1, Dot 3 2, Dot 4 3, Dot 5 4,
               Dot 0 2, Dot 1 3, Dot 2 4, Dot 3 5, Dot 0 5, Dot 5 0}"

definition cells6 :: "dot set" where
  "cells6 = {d. 0 \<le> dot_x d \<and> dot_x d < 6 \<and> 0 \<le> dot_y d \<and> dot_y d < 6}"

text \<open>
  The dots that the loops of \<open>Board.contour\<close> visit, in the order of the visit.
\<close>

definition contour_cells :: "ship \<Rightarrow> dot list" where
  "contour_cells s =
     (let x0 = (if horizontal s then dot_x (start s) else dot_y (start s));
          y0 = (if horizontal s then dot_y (start s) else dot_x (start s))
      in concat (map (\<lambda>i. map (\<lambda>j. if horizontal s then Dot i j else Dot j i)
                                 [y0 - 1..y0 + length_ship s])
                     [x0 - 1..x0 + 1]))"

text \<open>
  The vessel a shot at \<open>d\<close> lands on: the first ship of the list with \<open>d\<close> among
  its dots.
\<close>

definition first_hit :: "board \<Rightarrow> dot \<Rightarrow> ship option" where
  "first_hit b d = List.find (\<lambda>s. is_hit s d) (ships b)"

text \<open>
  No deck is shared between two ships of the list.
\<close>

fun ships_disjoint :: "ship list \<Rightarrow> bool" where
  "ships_disjoint [] = True"
| "ships_disjoint (s # ss) =
     ((\<forall>t \<in> set ss. set (dots s) \<inter> set (dots t) = {}) \<and> ships_disjoint ss)"

text \<open>
  \<open>near c d\<close>: the dot \<open>d\<close> is \<open>c\<close> itself or one of its eight neighbours.
  \<open>in_margin s d\<close>: \<open>d\<close> is a deck of \<open>s\<close> or within one step of a deck.
  \<open>in_rect s d\<close>: \<open>d\<close> lies in the rectangle that extends the bounding box of
  \<open>s\<close> by one cell in all directions.
\<close>

definition near :: "dot \<Rightarrow> dot \<Rightarrow> bool" where
  "near c d = (\<bar>dot_x d - dot_x c\<bar> \<le> 1 \<and> \<bar>dot_y d - dot_y c\<bar> \<le> 1)"

definition in_margin :: "ship \<Rightarrow> dot \<Rightarrow> bool" where
  "in_margin s d = (\<exists>c \<in> set (dots s). near c d)"

definition in_rect :: "ship \<Rightarrow> dot \<Rightarrow> bool" where
  "in_rect s d =
     (if horizontal s
      then dot_x (start s) - 1 \<le> dot_x d \<and> dot_x d \<le> dot_x (start s) + 1 \<and>
           dot_y (start s) - 1 \<le> dot_y d \<and> dot_y d \<le> dot_y (start s) + length_ship s
      else dot_y (start s) - 1 \<le> dot_y d \<and> dot_y d \<le> dot_y (start s) + 1 \<and>
           dot_x (start s) - 1 \<le> dot_x d \<and> dot_x d \<le> dot_x (start s) + length_ship s)"

text \<open>
  A run of placements: each call of \<open>add_ship\<close> leaves the board for the next one.
\<close>

definition place_all :: "board \<Rightarrow> ship list \<Rightarrow> board" where
  "place_all b ss = fold (\<lambda>s b'. snd (add_ship b' s)) ss b"

section \<open>Runs of board operations\<close>

text \<open>
  The number of owned vessels with no lives left.
\<close>

definition sunk_ships :: "board \<Rightarrow> int" where
  "sunk_ships b = int (length (filter (\<lambda>s. lives s = 0) (ships b)))"

text \<open>
  The calls a driver makes on a board: \<open>add_ship\<close> with a newly built
  \<open>Ship(start, horizontal, length)\<close>, \<open>begin\<close>, and \<open>shot\<close>. A caller that
  catches the exception goes on with the board as the call left it. \<open>vessel_ok\<close>
  asks for vessels of length at least 1; \<open>begin_before_fire\<close> says that no
  \<open>begin\<close> follows a \<open>shot\<close>.
\<close>

datatype op = Add_vessel dot bool int | Begin | Fire dot

fun apply_op :: "op \<Rightarrow> board \<Rightarrow> board" where
  "apply_op (Add_vessel st h l) b = snd (add_ship b (Ship st h l))"
| "apply_op Begin b = begin_board b"
| "apply_op (Fire d) b = snd (shot b d)"

definition run_ops :: "op list \<Rightarrow> board \<Rightarrow> board" where
  "run_ops ops b = fold apply_op ops b"

fun vessel_ok :: "op \<Rightarrow> bool" where
  "vessel_ok (Add_vessel st h l) = (1 \<le> l)"
| "vessel_ok Begin = True"
| "vessel_ok (Fire d) = True"

fun is_fire :: "op \<Rightarrow> bool" where
  "is_fire (Fire d) = True"
| "is_fire (Add_vessel st h l) = False"
| "is_fire Begin = False"

definition begin_before_fire :: "op list \<Rightarrow> bool" where
  "begin_before_fire ops = (Begin \<notin> set (dropWhile (\<lambda>c. \<not> is_fire c) ops))"

section \<open>Invariants\<close>

text \<open>
  Two invariants of a board. \<open>fresh_fleet\<close>: no vessel has been hit yet.
  \<open>lives_cover\<close>: every vessel has at least as many lives as decks that are not busy,
  and the counter is the number of vessels without lives.
\<close>

definition fresh_fleet :: "board \<Rightarrow> bool" where
  "fresh_fleet b =
     ((\<forall>s \<in> set (ships b). lives s = length_ship s \<and> 1 \<le> length_ship s) \<and> count b = 0)"

definition lives_cover :: "board \<Rightarrow> bool" where
  "lives_cover b =
     ((\<forall>s \<in> set (ships b). int (card (set (dots s) - set (busy b))) \<le> lives s) \<and>
      count b = sunk_ships b)"

text \<open>
  Notions for the invariant of a game. \<open>deck s i\<close> is the \<open>i\<close>-th dot of a ship;
  two ships are \<open>apart\<close> when no deck of one is a deck or a neighbour of a deck of the
  other; a ship is \<open>wounded\<close> when it has been hit and is not sunk.
\<close>

definition deck :: "ship \<Rightarrow> int \<Rightarrow> dot" where
  "deck s i = (if horizontal s
               then Dot (dot_x (start s)) (dot_y (start s) + i)
               else Dot (dot_x (start s) + i) (dot_y (start s)))"

definition apart :: "ship \<Rightarrow> ship \<Rightarrow> bool" where
  "apart s t = (\<forall>c \<in> set (dots s). \<forall>d \<in> set (dots t). \<not> near c d)"

fun ships_apart :: "ship list \<Rightarrow> bool" where
  "ships_apart [] = True"
| "ships_apart (s # ss) = ((\<forall>t \<in> set ss. apart s t) \<and> ships_apart ss)"

definition wounded :: "ship \<Rightarrow> bool" where
  "wounded s = (0 < lives s \<and> lives s < length_ship s)"

text \<open>
  The invariants. \<open>setup_inv\<close> holds while the fleet is placed: nothing is hit, the
  ships are apart and the margin of every ship is busy. \<open>fleet_ok\<close> is what stays
  fixed during play on the board of the game; \<open>play_inv\<close> adds that the lives of a
  ship are its decks that are not busy, and the reading of the counter; \<open>hunt_inv\<close>
  adds that \<open>prev\<close> lists the busy decks of the wounded ship, if there is one.
\<close>

definition setup_inv :: "board \<Rightarrow> bool" where
  "setup_inv b =
     ((\<forall>s \<in> set (ships b). 1 \<le> length_ship s \<and> length_ship s \<le> 3 \<and> lives s = length_ship s \<and>
                             (\<forall>d \<in> set (dots s). \<not> is_out b d)) \<and>
      ships_apart (ships b) \<and>
      (\<forall>s \<in> set (ships b). \<forall>d. in_margin s d \<and> \<not> is_out b d \<longrightarrow> d \<in> set (busy b)) \<and>
      count b = 0)"

definition fleet_ok :: "board \<Rightarrow> bool" where
  "fleet_ok b =
     (size_board b = 6 \<and> length (ships b) = 7 \<and>
      (\<forall>s \<in> set (ships b). 1 \<le> length_ship s \<and> length_ship s \<le> 3 \<and>
                             (\<forall>d \<in> set (dots s). \<not> is_out b d)) \<and>
      ships_apart (ships b))"

definition play_inv :: "board \<Rightarrow> bool" where
  "play_inv b =
     (fleet_ok b \<and>
      (\<forall>s \<in> set (ships b). lives s = int (card (set (dots s) - set (busy b)))) \<and>
      count b = sunk_ships b)"

definition hunt_inv :: "board \<Rightarrow> dot list \<Rightarrow> bool" where
  "hunt_inv b prev =
     (play_inv b \<and>
      (\<forall>s \<in> set (ships b). wounded s \<longrightarrow> set prev = set (dots s) \<inter> set (busy b)) \<and>
      (prev \<noteq> [] \<longrightarrow> (\<exists>s \<in> set (ships b). wounded s)) \<and>
      distinct prev \<and>
      (length prev = 2 \<longrightarrow> prev ! 1 \<in> neighbours4 (prev ! 0)))"

text \<open>
  A state of the computer's side is \<open>good\<close> when it has not crashed and, while the
  computer is asking, the game is not over and the invariant of the hunt holds.
\<close>

definition good :: "game \<Rightarrow> bool" where
  "good g =
     (case g of
        Asking is_sunk enemy prev \<Rightarrow>
          is_sunk = count enemy \<and> count enemy \<noteq> 7 \<and> hunt_inv enemy prev
      | Over enemy \<Rightarrow> True
      | Crashed \<Rightarrow> False)"

text \<open>
  Two runs of shots used below: at every cell of the square of rows 0 to 5 and columns
  0 to 5, and at every cell of the two diagonal patterns.
\<close>

definition shots_square :: "op list" where
  "shots_square = map Fire (concat (map (\<lambda>i. map (\<lambda>j. Dot i j) [0..5]) [0..5]))"

definition shots_patterns :: "op list" where
  "shots_patterns =
     map Fire [Dot 0 0, Dot 1 1, Dot 2 2, Dot 3 3, Dot 4 4, Dot 5 5,
               Dot 0 3, Dot 1 4, Dot 2 5, Dot 3 0, Dot 4 1, Dot 5 2,
               Dot 1 0, Dot 2 1, Dot 3 2, Dot 4 3, Dot 5 4,
               Dot 0 2, Dot 1 3, Dot 2 4, Dot 3 5, Dot 0 5, Dot 5 0]"

section \<open>Candidate sets of the computer player\<close>

lemma upto_0_5: "[0..5] = [0,1,2,3,4,5::int]" by (simp add: upto.simps)

lemma upto_0_2: "[0..2] = [0,1,2::int]" by (simp add: upto.simps)

lemma upto_0_3: "[0..3] = [0,1,2,3::int]" by (simp add: upto.simps)

lemma upto_1_5: "[1..5] = [1,2,3,4,5::int]" by (simp add: upto.simps)

lemma set_stripes1:
  "set (map (\<lambda>i. Dot i i) [0..5] @ map (\<lambda>i. Dot i (i + 3)) [0..2] @ map (\<lambda>i. Dot (i + 3) i) [0..2]) = stripes1"
  by (simp add: upto_0_5 upto_0_2 stripes1_def insert_commute)

lemma set_stripes2:
  "set (map (\<lambda>i. Dot i (i - 1)) [1..5] @ map (\<lambda>i. Dot i (i + 2)) [0..3] @ [Dot 0 5, Dot 5 0]) = stripes2"
  by (simp add: upto_0_3 upto_1_5 stripes2_def insert_commute)

lemma set_cells6:
  "set (concat (map (\<lambda>i. map (\<lambda>j. Dot i j) [0..5]) [0..5])) = cells6"
proof (rule set_eqI)
  fix d
  obtain a c where d: "d = Dot a c" by (cases d)
  have "d \<in> set (concat (map (\<lambda>i. map (\<lambda>j. Dot i j) [0..5]) [0..5]))
          \<longleftrightarrow> (0 \<le> a \<and> a \<le> 5 \<and> 0 \<le> c \<and> c \<le> 5)"
    unfolding d by (auto simp: image_iff)
  also have "\<dots> \<longleftrightarrow> d \<in> cells6"
    unfolding d cells6_def by auto
  finally show "d \<in> set (concat (map (\<lambda>i. map (\<lambda>j. Dot i j) [0..5]) [0..5])) \<longleftrightarrow> d \<in> cells6" .
qed

lemma filter_empty_set: "(filter P xs \<noteq> []) = (set (filter P xs) \<noteq> {})"
  by (auto simp: filter_empty_conv)

lemma set_filter_free: "set (filter (\<lambda>c. c \<notin> B) xs) = set xs - B"
  by auto

lemma ai_brain_nil_set:
  "set (ai_brain [] enemy) =
     (if stripes1 - set (busy enemy) \<noteq> {} then stripes1 - set (busy enemy)
      else if stripes2 - set (busy enemy) \<noteq> {} then stripes2 - set (busy enemy)
      else cells6 - set (busy enemy))"
proof -
  have n2: "(length ([]::dot list) = 2) = False" and n1: "(length ([]::dot list) = 1) = False"
    by simp_all
  show ?thesis
    by (simp only: ai_brain_def n1 n2 if_False Let_def filter_empty_set set_filter_free
          set_stripes1 set_stripes2 set_cells6 if_distrib [of set] cong: if_cong)
qed

lemma ai_brain_single_set: "set (ai_brain [p] enemy) = neighbours4 p - set (busy enemy)"
  by (auto simp: ai_brain_def neighbours4_def Let_def)

lemma ai_brain_pair_set: "set (ai_brain [p0, p1] enemy) = bracket_ends p0 p1 - set (busy enemy)"
  by (auto simp: ai_brain_def bracket_ends_def Let_def)

text \<open>
  Claim C6, first as the claim states it. On a board of size 7 on which every cell of
  rows 0 to 5 and columns 0 to 5 has been shot, \<open>ai_brain\<close> returns the empty list,
  although the cell (6, 6) is inside the grid and not busy.
\<close>

theorem ai_brain_search_counterexample:
  "ai_brain [] (run_ops shots_square (Board 7 False)) = [] \<and>
   \<not> is_out (run_ops shots_square (Board 7 False)) (Dot 6 6) \<and>
   Dot 6 6 \<notin> set (busy (run_ops shots_square (Board 7 False)))"
  by code_simp

text \<open>
  Claim C6, as amended. With an empty \<open>prev\<close>, \<open>ai_brain\<close> returns the primary
  diagonal pattern without the busy dots; when none of those is left, the second, offset
  pattern without the busy dots; and when none of those is left either, every cell of
  the square of rows 0 to 5 and columns 0 to 5 without the busy dots. On a board of
  size 6 that square is the whole grid.
\<close>

theorem ai_brain_search:
  "set (ai_brain [] enemy) =
     (if stripes1 - set (busy enemy) \<noteq> {} then stripes1 - set (busy enemy)
      else if stripes2 - set (busy enemy) \<noteq> {} then stripes2 - set (busy enemy)
      else cells6 - set (busy enemy))
   \<and> (size_board enemy = 6 \<longrightarrow> cells6 = {d. \<not> is_out enemy d})"
proof
  show "set (ai_brain [] enemy) =
     (if stripes1 - set (busy enemy) \<noteq> {} then stripes1 - set (busy enemy)
      else if stripes2 - set (busy enemy) \<noteq> {} then stripes2 - set (busy enemy)
      else cells6 - set (busy enemy))"
    by (rule ai_brain_nil_set)
  show "size_board enemy = 6 \<longrightarrow> cells6 = {d. \<not> is_out enemy d}"
    by (auto simp: cells6_def is_out_def)
qed

theorem ai_brain_search_witness:
  "size_board (run_ops shots_patterns (Board 6 False)) = 6 \<and>
   stripes1 - set (busy (run_ops shots_patterns (Board 6 False))) = {} \<and>
   stripes2 - set (busy (run_ops shots_patterns (Board 6 False))) = {} \<and>
   set (ai_brain [] (run_ops shots_patterns (Board 6 False)))
     = cells6 - set (busy (run_ops shots_patterns (Board 6 False))) \<and>
   Dot 0 1 \<in> set (ai_brain [] (run_ops shots_patterns (Board 6 False))) \<and>
   cells6 = {d. \<not> is_out (run_ops shots_patterns (Board 6 False)) d}"
proof -
  let ?b = "run_ops shots_patterns (Board 6 False)"
  have hs: "size_board ?b = 6" by code_simp
  have hb: "busy ?b = [Dot 0 0, Dot 1 1, Dot 2 2, Dot 3 3, Dot 4 4, Dot 5 5,
                       Dot 0 3, Dot 1 4, Dot 2 5, Dot 3 0, Dot 4 1, Dot 5 2,
                       Dot 1 0, Dot 2 1, Dot 3 2, Dot 4 3, Dot 5 4,
                       Dot 0 2, Dot 1 3, Dot 2 4, Dot 3 5, Dot 0 5, Dot 5 0]"
    by code_simp
  have h1: "stripes1 - set (busy ?b) = {}" unfolding hb stripes1_def by auto
  have h2: "stripes2 - set (busy ?b) = {}" unfolding hb stripes2_def by auto
  from ai_brain_search [of ?b] hs h1 h2
  have s: "set (ai_brain [] ?b) = cells6 - set (busy ?b)"
    and c: "cells6 = {d. \<not> is_out ?b d}" by simp_all
  have m: "Dot 0 1 \<in> cells6 - set (busy ?b)" unfolding hb cells6_def by simp
  from hs h1 h2 s c m show ?thesis by simp
qed

text \<open>
  Claim C9. With one hit in \<open>prev\<close>, the candidates are the four orthogonal
  neighbours of the hit that are not busy; for the hit (3, 3) and none of its neighbours
  busy these are the dots (4, 3), (2, 3), (3, 4) and (3, 2).
\<close>

theorem ai_brain_cross:
  "set (ai_brain [p] enemy) = neighbours4 p - set (busy enemy)
   \<and> (neighbours4 (Dot 3 3) \<inter> set (busy enemy) = {} \<longrightarrow>
        set (ai_brain [Dot 3 3] enemy) = {Dot 4 3, Dot 2 3, Dot 3 4, Dot 3 2})"
  unfolding ai_brain_single_set by (auto simp: neighbours4_def)

theorem ai_brain_cross_witness:
  "neighbours4 (Dot 3 3) \<inter> set (busy (Board 6 False)) = {} \<and>
   set (ai_brain [Dot 3 3] (Board 6 False)) = {Dot 4 3, Dot 2 3, Dot 3 4, Dot 3 2}"
proof -
  have h: "neighbours4 (Dot 3 3) \<inter> set (busy (Board 6 False)) = {}" by (simp add: Board_def)
  from ai_brain_cross [of "Dot 3 3" "Board 6 False"] h show ?thesis by blast
qed

text \<open>
  Claim C4. With two hits in \<open>prev\<close>, the candidates are the two dots one step beyond
  the ends of the line of the hits that are not busy; for the hits (2, 2) and (2, 3) and
  neither (2, 1) nor (2, 4) busy these are exactly (2, 1) and (2, 4).
\<close>

theorem ai_brain_bracket:
  "set (ai_brain [p0, p1] enemy) = bracket_ends p0 p1 - set (busy enemy)
   \<and> (Dot 2 1 \<notin> set (busy enemy) \<and> Dot 2 4 \<notin> set (busy enemy) \<longrightarrow>
        set (ai_brain [Dot 2 2, Dot 2 3] enemy) = {Dot 2 1, Dot 2 4})"
  unfolding ai_brain_pair_set by (auto simp: bracket_ends_def)

theorem ai_brain_bracket_witness:
  "Dot 2 1 \<notin> set (busy (Board 6 False)) \<and> Dot 2 4 \<notin> set (busy (Board 6 False)) \<and>
   set (ai_brain [Dot 2 2, Dot 2 3] (Board 6 False)) = {Dot 2 1, Dot 2 4}"
proof -
  have h: "Dot 2 1 \<notin> set (busy (Board 6 False)) \<and> Dot 2 4 \<notin> set (busy (Board 6 False))"
    by (simp add: Board_def)
  from ai_brain_bracket [of "Dot 2 2" "Dot 2 3" "Board 6 False"] h show ?thesis by blast
qed

section \<open>The contour pass and the shot loop\<close>

lemma fold_nested_concat:
  "fold (\<lambda>i. fold (\<lambda>j. f (h i j)) ys) xs b = fold f (concat (map (\<lambda>i. map (h i) ys) xs)) b"
  by (induction xs arbitrary: b) (simp_all add: fold_map comp_def)

lemma contour_fold: "contour b s v = fold (contour_step v) (contour_cells s) b"
  unfolding contour_def contour_cells_def Let_def
  by (rule fold_nested_concat)

lemma contour_step_frame [simp]:
  "size_board (contour_step v c b) = size_board b"
  "ships (contour_step v c b) = ships b"
  "count (contour_step v c b) = count b"
  "is_hidden (contour_step v c b) = is_hidden b"
  by (simp_all add: contour_step_def)

lemma is_out_contour_step [simp]: "is_out (contour_step v c b) d = is_out b d"
  by (simp add: is_out_def)

lemma fold_contour_step_frame [simp]:
  "size_board (fold (contour_step v) cs b) = size_board b"
  "ships (fold (contour_step v) cs b) = ships b"
  "count (fold (contour_step v) cs b) = count b"
  "is_hidden (fold (contour_step v) cs b) = is_hidden b"
  by (induction cs arbitrary: b) simp_all

lemma busy_contour_step:
  "set (busy (contour_step v c b)) = set (busy b) \<union> (if is_out b c then {} else {c})"
  by (auto simp: contour_step_def)

lemma busy_fold_contour_step:
  "set (busy (fold (contour_step v) cs b)) = set (busy b) \<union> {c \<in> set cs. \<not> is_out b c}"
proof (induction cs arbitrary: b)
  case Nil
  show ?case by simp
next
  case (Cons c cs)
  have "is_out (contour_step v c b) = is_out b" by (rule ext) simp
  then show ?case by (auto simp: Cons.IH busy_contour_step)
qed

lemma contour_frame [simp]:
  "size_board (contour b s v) = size_board b"
  "ships (contour b s v) = ships b"
  "count (contour b s v) = count b"
  "is_hidden (contour b s v) = is_hidden b"
  by (simp_all add: contour_fold)

lemma busy_contour:
  "set (busy (contour b s v)) = set (busy b) \<union> {c \<in> set (contour_cells s). \<not> is_out b c}"
  by (simp add: contour_fold busy_fold_contour_step)

lemma is_out_contour [simp]: "is_out (contour b s v) d = is_out b d"
  by (simp add: is_out_def)

lemma shot_loop_size [simp]: "size_board (snd (shot_loop d pre rest b)) = size_board b"
  by (induction rest arbitrary: pre) (simp_all add: Let_def)

lemma shot_loop_busy: "set (busy b) \<subseteq> set (busy (snd (shot_loop d pre rest b)))"
  by (induction rest arbitrary: pre) (auto simp: Let_def busy_contour)

lemma shot_loop_result:
  "fst (shot_loop d pre rest b) =
     (case List.find (\<lambda>s. is_hit s d) rest of None \<Rightarrow> False | Some s \<Rightarrow> lives s - 1 > 0)"
  by (induction rest arbitrary: pre) (simp_all add: Let_def)

lemma shot_loop_count:
  "count (snd (shot_loop d pre rest b)) = count b \<or> count (snd (shot_loop d pre rest b)) = count b + 1"
  by (induction rest arbitrary: pre) (simp_all add: Let_def)

text \<open>
  Claim C10. A call of \<open>shot\<close> that raises leaves the board as it was: cell matrix,
  busy list, ships with their lives, and counter. The only exceptions it raises are the
  out-of-bounds and the busy-cell exception.
\<close>

theorem shot_error_atomic:
  "wf_board b \<Longrightarrow> fst (shot b d) = Inl e \<Longrightarrow>
     snd (shot b d) = b \<and> (e = BoardOutException \<or> e = BoardBusyException)"
  by (auto simp: shot_def Let_def split: if_splits)

theorem shot_error_atomic_witness:
  "wf_board (Board 6 False) \<and>
   fst (shot (Board 6 False) (Dot 6 0)) = Inl BoardOutException \<and>
   snd (shot (Board 6 False) (Dot 6 0)) = Board 6 False"
proof -
  have h1: "wf_board (Board 6 False)" by code_simp
  have h2: "fst (shot (Board 6 False) (Dot 6 0)) = Inl BoardOutException" by code_simp
  from shot_error_atomic [OF h1 h2] h1 h2 show ?thesis by blast
qed

text \<open>
  Claim C8. After any call of \<open>shot\<close> at a dot inside the grid, whatever its outcome, a
  second call at the same dot raises the busy-cell exception; a call at a dot outside
  the grid raises the out-of-bounds exception.
\<close>

theorem shot_twice_busy:
  "wf_board b \<Longrightarrow>
     (\<not> is_out b d \<longrightarrow> fst (shot (snd (shot b d)) d) = Inl BoardBusyException) \<and>
     (is_out b d \<longrightarrow> fst (shot b d) = Inl BoardOutException)"
proof -
  have "fst (shot (snd (shot b d)) d) = Inl BoardBusyException" if "\<not> is_out b d"
  proof -
    have s: "size_board (snd (shot b d)) = size_board b"
      by (simp add: shot_def Let_def)
    have "d \<in> set (busy (snd (shot b d)))"
      using that shot_loop_busy [of "b\<lparr>busy := busy b @ [d]\<rparr>" d "[]" "ships b"]
      by (auto simp: shot_def Let_def)
    moreover have "\<not> is_out (snd (shot b d)) d"
      using that s by (simp add: is_out_def)
    ultimately show ?thesis by (simp add: shot_def)
  qed
  then show ?thesis by (simp add: shot_def)
qed

theorem shot_twice_busy_witness:
  "wf_board (Board 6 False) \<and>
   \<not> is_out (Board 6 False) (Dot 1 1) \<and>
   fst (shot (snd (shot (Board 6 False) (Dot 1 1))) (Dot 1 1)) = Inl BoardBusyException \<and>
   is_out (Board 6 False) (Dot 1 (-1)) \<and>
   fst (shot (Board 6 False) (Dot 1 (-1))) = Inl BoardOutException"
proof -
  have h1: "wf_board (Board 6 False)" by code_simp
  have h2: "\<not> is_out (Board 6 False) (Dot 1 1)" by code_simp
  have h3: "is_out (Board 6 False) (Dot 1 (-1))" by code_simp
  from shot_twice_busy [OF h1, of "Dot 1 1"] shot_twice_busy [OF h1, of "Dot 1 (-1)"] h1 h2 h3
  show ?thesis by blast
qed

section \<open>Shots and placement\<close>

lemma find_disjoint:
  "ships_disjoint ss \<Longrightarrow> s \<in> set ss \<Longrightarrow> is_hit s d \<Longrightarrow> List.find (\<lambda>s. is_hit s d) ss = Some s"
  by (induction ss) (auto simp: is_hit_def)

lemma find_hit_Some: "List.find (\<lambda>s. is_hit s d) ss = Some s \<Longrightarrow> s \<in> set ss \<and> is_hit s d"
  by (induction ss) (auto split: if_splits)

text \<open>
  Claim C1, first as the claim states it. A ship of length 1 is placed at (0, 0);
  \<open>begin\<close> empties the busy list, so a second ship, of length 2, can be placed over
  it. The shot at (0, 0) lands on the first ship and sinks it: \<open>shot\<close> returns
  \<open>False\<close>, although the dot also belongs to the second ship, whose lives would stay
  above 0 after a decrement.
\<close>

theorem shot_fire_again_counterexample:
  "wf_board (run_ops [Add_vessel (Dot 0 0) True 1, Begin, Add_vessel (Dot 0 0) True 2, Begin]
               (Board 6 False)) \<and>
   \<not> is_out (run_ops [Add_vessel (Dot 0 0) True 1, Begin, Add_vessel (Dot 0 0) True 2, Begin]
               (Board 6 False)) (Dot 0 0) \<and>
   Dot 0 0 \<notin> set (busy (run_ops [Add_vessel (Dot 0 0) True 1, Begin, Add_vessel (Dot 0 0) True 2, Begin]
               (Board 6 False))) \<and>
   Ship (Dot 0 0) True 2
     \<in> set (ships (run_ops [Add_vessel (Dot 0 0) True 1, Begin, Add_vessel (Dot 0 0) True 2, Begin]
               (Board 6 False))) \<and>
   is_hit (Ship (Dot 0 0) True 2) (Dot 0 0) \<and>
   lives (Ship (Dot 0 0) True 2) - 1 > 0 \<and>
   fst (shot (run_ops [Add_vessel (Dot 0 0) True 1, Begin, Add_vessel (Dot 0 0) True 2, Begin]
               (Board 6 False)) (Dot 0 0)) = Inr False"
  by code_simp

text \<open>
  Claim C1, as amended. For a dot inside the grid that is not busy, \<open>shot\<close> returns
  \<open>True\<close> exactly when the first ship of the list that owns the dot, the one the shot
  lands on, keeps its lives above 0 after the decrement; it returns \<open>False\<close> when no
  vessel occupies the dot and when the decrement brings the lives of that ship to 0.
  When no two ships share a deck, the ship the shot lands on is the only owner of the
  dot.
\<close>

theorem shot_fire_again:
  assumes "wf_board b" and "\<not> is_out b d" and "d \<notin> set (busy b)"
  shows "(fst (shot b d) = Inr True \<longleftrightarrow> (\<exists>s. first_hit b d = Some s \<and> lives s - 1 > 0)) \<and>
         ((\<forall>s \<in> set (ships b). \<not> is_hit s d) \<longrightarrow> fst (shot b d) = Inr False) \<and>
         (\<forall>s. first_hit b d = Some s \<and> lives s - 1 = 0 \<longrightarrow> fst (shot b d) = Inr False) \<and>
         (ships_disjoint (ships b) \<longrightarrow>
            (fst (shot b d) = Inr True \<longleftrightarrow> (\<exists>s \<in> set (ships b). is_hit s d \<and> lives s - 1 > 0)))"
proof -
  have r: "fst (shot b d) = Inr (case first_hit b d of None \<Rightarrow> False | Some s \<Rightarrow> lives s - 1 > 0)"
    using assms by (simp add: shot_def Let_def shot_loop_result first_hit_def)
  have a: "fst (shot b d) = Inr True \<longleftrightarrow> (\<exists>s. first_hit b d = Some s \<and> lives s - 1 > 0)"
    unfolding r by (simp split: option.splits)
  have m: "fst (shot b d) = Inr False" if "\<forall>s \<in> set (ships b). \<not> is_hit s d"
  proof -
    have "first_hit b d = None"
      using that by (simp add: first_hit_def find_None_iff)
    then show ?thesis unfolding r by simp
  qed
  have k: "fst (shot b d) = Inr False" if "first_hit b d = Some s \<and> lives s - 1 = 0" for s
    unfolding r using that by simp
  have u: "fst (shot b d) = Inr True \<longleftrightarrow> (\<exists>s \<in> set (ships b). is_hit s d \<and> lives s - 1 > 0)"
    if dj: "ships_disjoint (ships b)"
  proof
    assume "fst (shot b d) = Inr True"
    then obtain s where "first_hit b d = Some s" "lives s - 1 > 0" using a by blast
    then show "\<exists>s \<in> set (ships b). is_hit s d \<and> lives s - 1 > 0"
      using find_hit_Some [of d "ships b" s] by (auto simp: first_hit_def)
  next
    assume "\<exists>s \<in> set (ships b). is_hit s d \<and> lives s - 1 > 0"
    then obtain s where "s \<in> set (ships b)" "is_hit s d" "lives s - 1 > 0" by blast
    then have "first_hit b d = Some s \<and> lives s - 1 > 0"
      using find_disjoint [OF dj] by (simp add: first_hit_def)
    then show "fst (shot b d) = Inr True" using a by blast
  qed
  show ?thesis using a m k u by blast
qed

theorem shot_fire_again_witness:
  "wf_board (begin_board (snd (add_ship (Board 6 False) (Ship (Dot 0 0) True 2)))) \<and>
   \<not> is_out (begin_board (snd (add_ship (Board 6 False) (Ship (Dot 0 0) True 2)))) (Dot 0 1) \<and>
   Dot 0 1 \<notin> set (busy (begin_board (snd (add_ship (Board 6 False) (Ship (Dot 0 0) True 2))))) \<and>
   ships_disjoint (ships (begin_board (snd (add_ship (Board 6 False) (Ship (Dot 0 0) True 2))))) \<and>
   fst (shot (begin_board (snd (add_ship (Board 6 False) (Ship (Dot 0 0) True 2)))) (Dot 0 1)) = Inr True"
proof -
  let ?b = "begin_board (snd (add_ship (Board 6 False) (Ship (Dot 0 0) True 2)))"
  have h1: "wf_board ?b" by code_simp
  have h2: "\<not> is_out ?b (Dot 0 1)" by code_simp
  have h3: "Dot 0 1 \<notin> set (busy ?b)" by code_simp
  have h4: "ships_disjoint (ships ?b)" by code_simp
  have h5: "\<exists>s \<in> set (ships ?b). is_hit s (Dot 0 1) \<and> lives s - 1 > 0" by code_simp
  from shot_fire_again [OF h1 h2 h3] h4 h5 have "fst (shot ?b (Dot 0 1)) = Inr True" by blast
  with h1 h2 h3 h4 show ?thesis by blast
qed

lemma check_dots_Some:
  "check_dots b ds = Some e \<longleftrightarrow>
     (e = BoardShipFailureException \<and> (\<exists>d \<in> set ds. is_out b d \<or> d \<in> set (busy b)))"
  by (induction ds) auto

lemma check_dots_None:
  "check_dots b ds = None \<longleftrightarrow> (\<forall>d \<in> set ds. \<not> is_out b d \<and> d \<notin> set (busy b))"
  by (induction ds) auto

text \<open>
  Claim C2. \<open>add_ship\<close> raises the placement exception exactly when some dot of the
  ship is outside the grid or busy, it raises nothing else, and a call that raises
  leaves the board (cell matrix, busy list, ship list, counter) as it was.
\<close>

theorem add_ship_all_or_nothing:
  assumes "wf_board b"
  shows "(fst (add_ship b s) = Inl BoardShipFailureException \<longleftrightarrow>
            (\<exists>d \<in> set (dots s). is_out b d \<or> d \<in> set (busy b))) \<and>
         (\<forall>e. fst (add_ship b s) = Inl e \<longrightarrow>
            e = BoardShipFailureException \<and> snd (add_ship b s) = b)"
proof (cases "check_dots b (dots s)")
  case None
  then show ?thesis
    using check_dots_None [of b "dots s"] by (auto simp: add_ship_def Let_def)
next
  case (Some e)
  then show ?thesis
    using check_dots_Some [of b "dots s" e] by (auto simp: add_ship_def)
qed

theorem add_ship_all_or_nothing_witness:
  "wf_board (Board 6 False) \<and>
   is_out (Board 6 False) (Dot 0 6) \<and>
   Dot 0 6 \<in> set (dots (Ship (Dot 0 4) True 3)) \<and>
   fst (add_ship (Board 6 False) (Ship (Dot 0 4) True 3)) = Inl BoardShipFailureException \<and>
   snd (add_ship (Board 6 False) (Ship (Dot 0 4) True 3)) = Board 6 False"
proof -
  have h1: "wf_board (Board 6 False)" by code_simp
  have h2: "is_out (Board 6 False) (Dot 0 6)" by code_simp
  have h3: "Dot 0 6 \<in> set (dots (Ship (Dot 0 4) True 3))" by code_simp
  from add_ship_all_or_nothing [OF h1, of "Ship (Dot 0 4) True 3"] h2 h3
  have "fst (add_ship (Board 6 False) (Ship (Dot 0 4) True 3)) = Inl BoardShipFailureException \<and>
        snd (add_ship (Board 6 False) (Ship (Dot 0 4) True 3)) = Board 6 False"
    by blast
  with h1 h2 h3 show ?thesis by blast
qed

lemma place_dot_frame [simp]:
  "size_board (place_dot d b) = size_board b"
  "ships (place_dot d b) = ships b"
  "count (place_dot d b) = count b"
  "set (busy (place_dot d b)) = insert d (set (busy b))"
  by (simp_all add: place_dot_def)

lemma fold_place_dot_frame [simp]:
  "size_board (fold place_dot ds b) = size_board b"
  "ships (fold place_dot ds b) = ships b"
  "count (fold place_dot ds b) = count b"
  "set (busy (fold place_dot ds b)) = set ds \<union> set (busy b)"
  by (induction ds arbitrary: b) auto

lemma is_out_size: "size_board b' = size_board b \<Longrightarrow> is_out b' d = is_out b d"
  by (simp add: is_out_def)

lemma add_ship_ok_busy:
  assumes "fst (add_ship b s) = Inr u"
  shows "set (busy (snd (add_ship b s))) =
           set (busy b) \<union> set (dots s) \<union> {c \<in> set (contour_cells s). \<not> is_out b c}"
proof -
  have "check_dots b (dots s) = None"
    using assms by (auto simp: add_ship_def split: option.splits)
  then show ?thesis
    by (auto simp: add_ship_def Let_def busy_contour is_out_def)
qed

lemma add_ship_size [simp]: "size_board (snd (add_ship b s)) = size_board b"
  by (simp add: add_ship_def Let_def split: option.splits)

lemma add_ship_busy_mono: "set (busy b) \<subseteq> set (busy (snd (add_ship b s)))"
  by (auto simp: add_ship_def Let_def busy_contour split: option.splits)

lemma place_all_size [simp]: "size_board (place_all b ss) = size_board b"
  unfolding place_all_def by (induction ss arbitrary: b) simp_all

lemma place_all_busy_mono: "set (busy b) \<subseteq> set (busy (place_all b ss))"
  unfolding place_all_def
proof (induction ss arbitrary: b)
  case Nil
  show ?case by simp
next
  case (Cons s ss)
  show ?case using Cons.IH [of "snd (add_ship b s)"] add_ship_busy_mono [of b s] by auto
qed

lemma in_rect_contour_cells: "in_rect s d \<longleftrightarrow> d \<in> set (contour_cells s)"
proof -
  obtain a c where d: "d = Dot a c" by (cases d)
  show ?thesis
    unfolding d in_rect_def contour_cells_def Let_def
    by (auto simp: image_iff)
qed

lemma in_margin_rect: "in_margin s d \<Longrightarrow> in_rect s d"
  unfolding in_margin_def in_rect_def near_def dots_def
  by (auto split: if_splits)

text \<open>
  Claim C3. After a successful \<open>add_ship\<close> every dot inside the grid that lies in the
  rectangle one cell around the ship, in particular every deck and every cell within one
  step of a deck, is busy; hence any later placement, after any further placements, of a
  ship with a deck there raises the placement exception.
\<close>

theorem add_ship_margin_busy:
  assumes "wf_board b" and "fst (add_ship b s) = Inr u"
  shows "(\<forall>d. \<not> is_out b d \<and> (in_rect s d \<or> in_margin s d) \<longrightarrow>
              d \<in> set (busy (snd (add_ship b s)))) \<and>
         (\<forall>ts t. (\<exists>d \<in> set (dots t). in_rect s d \<or> in_margin s d) \<longrightarrow>
              fst (add_ship (place_all (snd (add_ship b s)) ts) t) = Inl BoardShipFailureException)"
proof -
  let ?b' = "snd (add_ship b s)"
  have 1: "d \<in> set (busy ?b')" if "\<not> is_out b d" and "in_rect s d \<or> in_margin s d" for d
  proof -
    have "in_rect s d" using that(2) in_margin_rect by blast
    then have "d \<in> set (contour_cells s)" by (simp add: in_rect_contour_cells)
    then show ?thesis using that(1) add_ship_ok_busy [OF assms(2)] by simp
  qed
  have 2: "fst (add_ship (place_all ?b' ts) t) = Inl BoardShipFailureException"
    if "\<exists>d \<in> set (dots t). in_rect s d \<or> in_margin s d" for ts t
  proof -
    from that obtain d where d: "d \<in> set (dots t)" "in_rect s d \<or> in_margin s d" by blast
    let ?c = "place_all ?b' ts"
    have sz: "size_board ?c = size_board b" by simp
    have "is_out ?c d \<or> d \<in> set (busy ?c)"
    proof (cases "is_out b d")
      case True
      then show ?thesis using is_out_size [OF sz] by simp
    next
      case False
      then have "d \<in> set (busy ?b')" using 1 d(2) by blast
      then show ?thesis using place_all_busy_mono [of ?b' ts] by blast
    qed
    then have "check_dots ?c (dots t) = Some BoardShipFailureException"
      using d(1) by (auto simp: check_dots_Some)
    then show ?thesis by (simp add: add_ship_def)
  qed
  show ?thesis using 1 2 by blast
qed

theorem add_ship_margin_busy_witness:
  "wf_board (Board 6 False) \<and>
   fst (add_ship (Board 6 False) (Ship (Dot 2 2) False 2)) = Inr () \<and>
   \<not> is_out (Board 6 False) (Dot 4 3) \<and>
   in_rect (Ship (Dot 2 2) False 2) (Dot 4 3) \<and>
   Dot 4 3 \<in> set (busy (snd (add_ship (Board 6 False) (Ship (Dot 2 2) False 2)))) \<and>
   Dot 4 3 \<in> set (dots (Ship (Dot 4 3) True 1)) \<and>
   fst (add_ship (place_all (snd (add_ship (Board 6 False) (Ship (Dot 2 2) False 2))) [])
          (Ship (Dot 4 3) True 1)) = Inl BoardShipFailureException"
proof -
  have h1: "wf_board (Board 6 False)" by code_simp
  have h2: "fst (add_ship (Board 6 False) (Ship (Dot 2 2) False 2)) = Inr ()" by code_simp
  have h3: "\<not> is_out (Board 6 False) (Dot 4 3)" by code_simp
  have h4: "in_rect (Ship (Dot 2 2) False 2) (Dot 4 3)" by code_simp
  have h5: "Dot 4 3 \<in> set (dots (Ship (Dot 4 3) True 1))" by code_simp
  from add_ship_margin_busy [OF h1 h2] h3 h4 h5 h1 h2 show ?thesis by blast
qed

section \<open>The outcomes of a shot\<close>

lemma shot_loop_miss:
  "\<forall>s \<in> set rest. \<not> is_hit s d \<Longrightarrow>
     shot_loop d pre rest b = (False, b\<lparr>field := set_cell (field b) d CellPoint\<rparr>)"
  by (induction rest arbitrary: pre) simp_all

lemma shot_loop_hit:
  "\<forall>t \<in> set r1. \<not> is_hit t d \<Longrightarrow> is_hit s d \<Longrightarrow>
     shot_loop d pre (r1 @ s # r2) b =
       (if lives s - 1 > 0
        then (True, b\<lparr>field := set_cell (field b) d CellX,
                      ships := pre @ r1 @ s\<lparr>lives := lives s - 1\<rparr> # r2\<rparr>)
        else (False, contour (b\<lparr>field := set_cell (field b) d CellX,
                                 ships := pre @ r1 @ s\<lparr>lives := lives s - 1\<rparr> # r2,
                                 count := count b + 1\<rparr>) (s\<lparr>lives := lives s - 1\<rparr>) True))"
  by (induction r1 arbitrary: pre) (simp_all add: Let_def)

lemma first_hit_split:
  assumes "\<exists>s \<in> set ss. is_hit s d"
  obtains r1 s r2 where "ss = r1 @ s # r2" and "\<forall>t \<in> set r1. \<not> is_hit t d" and "is_hit s d"
  using assms split_list_first_prop [of ss "\<lambda>s. is_hit s d"] by blast

lemma shot_cases [consumes 0, case_names error miss wound kill]:
  obtains
    (error) e where "shot b d = (Inl e, b)" and "is_out b d \<or> d \<in> set (busy b)"
  | (miss) "\<not> is_out b d" and "d \<notin> set (busy b)" and "\<forall>s \<in> set (ships b). \<not> is_hit s d"
      and "shot b d = (Inr False, b\<lparr>busy := busy b @ [d], field := set_cell (field b) d CellPoint\<rparr>)"
  | (wound) r1 s r2 where "\<not> is_out b d" and "d \<notin> set (busy b)"
      and "ships b = r1 @ s # r2" and "\<forall>t \<in> set r1. \<not> is_hit t d" and "is_hit s d"
      and "lives s - 1 > 0"
      and "shot b d = (Inr True, b\<lparr>busy := busy b @ [d], field := set_cell (field b) d CellX,
                                    ships := r1 @ s\<lparr>lives := lives s - 1\<rparr> # r2\<rparr>)"
  | (kill) r1 s r2 where "\<not> is_out b d" and "d \<notin> set (busy b)"
      and "ships b = r1 @ s # r2" and "\<forall>t \<in> set r1. \<not> is_hit t d" and "is_hit s d"
      and "\<not> lives s - 1 > 0"
      and "shot b d = (Inr False,
             contour (b\<lparr>busy := busy b @ [d], field := set_cell (field b) d CellX,
                        ships := r1 @ s\<lparr>lives := lives s - 1\<rparr> # r2,
                        count := count b + 1\<rparr>) (s\<lparr>lives := lives s - 1\<rparr>) True)"
proof (cases "is_out b d \<or> d \<in> set (busy b)")
  case True
  then have "shot b d = (Inl BoardOutException, b) \<or> shot b d = (Inl BoardBusyException, b)"
    by (auto simp: shot_def)
  then show ?thesis using True error by blast
next
  case False
  show ?thesis
  proof (cases "\<exists>s \<in> set (ships b). is_hit s d")
    case no: False
    then have "shot b d = (Inr False, b\<lparr>busy := busy b @ [d], field := set_cell (field b) d CellPoint\<rparr>)"
      using False by (simp add: shot_def Let_def shot_loop_miss)
    then show ?thesis using miss False no by blast
  next
    case True
    then obtain r1 s r2 where sp: "ships b = r1 @ s # r2" "\<forall>t \<in> set r1. \<not> is_hit t d" "is_hit s d"
      by (rule first_hit_split)
    show ?thesis
    proof (cases "lives s - 1 > 0")
      case w: True
      have "shot b d = (Inr True, b\<lparr>busy := busy b @ [d], field := set_cell (field b) d CellX,
                                    ships := r1 @ s\<lparr>lives := lives s - 1\<rparr> # r2\<rparr>)"
        using False w sp by (simp add: shot_def Let_def shot_loop_hit)
      then show ?thesis using wound False sp w by blast
    next
      case k: False
      have "shot b d = (Inr False,
             contour (b\<lparr>busy := busy b @ [d], field := set_cell (field b) d CellX,
                        ships := r1 @ s\<lparr>lives := lives s - 1\<rparr> # r2,
                        count := count b + 1\<rparr>) (s\<lparr>lives := lives s - 1\<rparr>) True)"
        using False k sp by (simp add: shot_def Let_def shot_loop_hit)
      then show ?thesis using kill False sp k by blast
    qed
  qed
qed

section \<open>The sunk counter\<close>

lemma length_dots: "length (dots s) = nat (length_ship s)"
  by (simp add: dots_def)

lemma dots_lives_update [simp]: "dots (s\<lparr>lives := l\<rparr>) = dots s"
  by (simp add: dots_def)

lemma card_dots_le:
  assumes "0 \<le> length_ship s"
  shows "int (card (set (dots s) - B)) \<le> length_ship s"
proof -
  have "card (set (dots s) - B) \<le> card (set (dots s))"
    by (rule card_mono) auto
  also have "\<dots> \<le> length (dots s)" by (rule card_length)
  finally have "card (set (dots s) - B) \<le> nat (length_ship s)"
    by (simp add: length_dots)
  then show ?thesis using assms by linarith
qed

lemma card_diff_mono: "B \<subseteq> B' \<Longrightarrow> card (set xs - B') \<le> card (set xs - B)"
  by (rule card_mono) auto

lemma card_diff_hit:
  "d \<in> set xs \<Longrightarrow> d \<notin> B \<Longrightarrow> insert d B \<subseteq> B' \<Longrightarrow> card (set xs - B') < card (set xs - B)"
  by (rule psubset_card_mono) auto

lemma add_ship_cases [consumes 0, case_names fail ok]:
  obtains
    (fail) "add_ship b s = (Inl BoardShipFailureException, b)"
      and "\<exists>d \<in> set (dots s). is_out b d \<or> d \<in> set (busy b)"
  | (ok) "fst (add_ship b s) = Inr ()"
      and "\<forall>d \<in> set (dots s). \<not> is_out b d \<and> d \<notin> set (busy b)"
      and "ships (snd (add_ship b s)) = ships b @ [s]"
      and "count (snd (add_ship b s)) = count b"
      and "set (busy (snd (add_ship b s))) =
             set (busy b) \<union> set (dots s) \<union> {c \<in> set (contour_cells s). \<not> is_out b c}"
proof (cases "check_dots b (dots s)")
  case None
  then have "fst (add_ship b s) = Inr ()" by (simp add: add_ship_def Let_def)
  moreover have "\<forall>d \<in> set (dots s). \<not> is_out b d \<and> d \<notin> set (busy b)"
    using None by (simp add: check_dots_None)
  moreover have "ships (snd (add_ship b s)) = ships b @ [s]"
    using None by (simp add: add_ship_def Let_def)
  moreover have "count (snd (add_ship b s)) = count b"
    using None by (simp add: add_ship_def Let_def)
  ultimately show ?thesis using ok add_ship_ok_busy [of b s "()"] by blast
next
  case (Some e)
  then have "e = BoardShipFailureException" "\<exists>d \<in> set (dots s). is_out b d \<or> d \<in> set (busy b)"
    using check_dots_Some [of b "dots s" e] by auto
  then show ?thesis using Some fail by (simp add: add_ship_def)
qed

lemma fresh_fleet_Board: "fresh_fleet (Board n hid)"
  by (simp add: fresh_fleet_def Board_def)

lemma fresh_fleet_begin: "fresh_fleet b \<Longrightarrow> fresh_fleet (begin_board b)"
  by (simp add: fresh_fleet_def begin_board_def)

lemma fresh_fleet_add:
  assumes "fresh_fleet b" and "1 \<le> l"
  shows "fresh_fleet (snd (add_ship b (Ship st h l)))"
proof (cases rule: add_ship_cases [of b "Ship st h l"])
  case fail
  then show ?thesis using assms by simp
next
  case ok
  then show ?thesis using assms by (auto simp: fresh_fleet_def Ship_def)
qed

lemma fresh_fleet_cover:
  assumes "fresh_fleet b"
  shows "lives_cover b"
proof -
  have "int (card (set (dots s) - set (busy b))) \<le> lives s" if "s \<in> set (ships b)" for s
  proof -
    have "lives s = length_ship s" "1 \<le> length_ship s"
      using assms that by (auto simp: fresh_fleet_def)
    then show ?thesis using card_dots_le [of s "set (busy b)"] by simp
  qed
  moreover have "filter (\<lambda>s. lives s = 0) (ships b) = []"
    using assms by (auto simp: fresh_fleet_def filter_empty_conv)
  ultimately show ?thesis using assms by (simp add: lives_cover_def sunk_ships_def fresh_fleet_def)
qed

lemma lives_cover_add:
  assumes "lives_cover b" and "1 \<le> l"
  shows "lives_cover (snd (add_ship b (Ship st h l)))"
proof (cases rule: add_ship_cases [of b "Ship st h l"])
  case fail
  then show ?thesis using assms by simp
next
  case ok
  let ?s = "Ship st h l" and ?b' = "snd (add_ship b (Ship st h l))"
  have sub: "set (busy b) \<subseteq> set (busy ?b')" using ok(5) by auto
  have "int (card (set (dots t) - set (busy ?b'))) \<le> lives t" if "t \<in> set (ships ?b')" for t
  proof (cases "t \<in> set (ships b)")
    case True
    then have "int (card (set (dots t) - set (busy b))) \<le> lives t"
      using assms(1) by (simp add: lives_cover_def)
    then show ?thesis using card_diff_mono [OF sub, of "dots t"] by linarith
  next
    case False
    then have t: "t = ?s" using that ok(3) by simp
    have "lives t = length_ship t" "1 \<le> length_ship t"
      using assms(2) unfolding t by (simp_all add: Ship_def)
    then show ?thesis using card_dots_le [of t "set (busy ?b')"] by simp
  qed
  moreover have "sunk_ships ?b' = sunk_ships b"
    using assms(2) ok(3) by (simp add: sunk_ships_def Ship_def)
  ultimately show ?thesis using assms(1) ok(4) by (simp add: lives_cover_def)
qed

lemma lives_cover_shot:
  assumes "lives_cover b"
  shows "lives_cover (snd (shot b d))"
proof (cases rule: shot_cases [of b d])
  case (error e)
  then show ?thesis using assms by simp
next
  case miss
  let ?b' = "snd (shot b d)"
  have f: "ships ?b' = ships b" "count ?b' = count b" "set (busy b) \<subseteq> set (busy ?b')"
    using miss(4) by auto
  have "int (card (set (dots t) - set (busy ?b'))) \<le> lives t" if "t \<in> set (ships b)" for t
    using assms that card_diff_mono [OF f(3), of "dots t"] by (fastforce simp: lives_cover_def)
  then show ?thesis using assms f by (simp add: lives_cover_def sunk_ships_def)
next
  case (wound r1 s r2)
  let ?b' = "snd (shot b d)" and ?s' = "s\<lparr>lives := lives s - 1\<rparr>"
  have f: "ships ?b' = r1 @ ?s' # r2" "count ?b' = count b" "set (busy ?b') = insert d (set (busy b))"
    using wound(7) by auto
  have sub: "set (busy b) \<subseteq> set (busy ?b')" using f(3) by auto
  have old: "int (card (set (dots t) - set (busy b))) \<le> lives t" if "t \<in> set (ships b)" for t
    using assms that by (simp add: lives_cover_def)
  have "int (card (set (dots t) - set (busy ?b'))) \<le> lives t" if "t \<in> set (ships ?b')" for t
  proof (cases "t \<in> set r1 \<union> set r2")
    case True
    then have "t \<in> set (ships b)" using wound(3) by auto
    then show ?thesis
      using old [of t] card_diff_mono [OF sub, of "dots t"] by linarith
  next
    case False
    then have t: "t = ?s'" using that f(1) by auto
    have "card (set (dots s) - set (busy ?b')) < card (set (dots s) - set (busy b))"
      using wound(2,5) f(3) by (intro card_diff_hit [of d]) (auto simp: is_hit_def)
    moreover have "int (card (set (dots s) - set (busy b))) \<le> lives s"
      using old [of s] wound(3) by simp
    ultimately show ?thesis unfolding t by simp
  qed
  moreover have "sunk_ships ?b' = sunk_ships b"
    using wound(3,6) f(1) by (simp add: sunk_ships_def)
  ultimately show ?thesis using assms f(2) by (simp add: lives_cover_def)
next
  case (kill r1 s r2)
  let ?b' = "snd (shot b d)" and ?s' = "s\<lparr>lives := lives s - 1\<rparr>"
  have f: "ships ?b' = r1 @ ?s' # r2" "count ?b' = count b + 1"
    "insert d (set (busy b)) \<subseteq> set (busy ?b')"
    using kill(7) by (auto simp: busy_contour)
  have sub: "set (busy b) \<subseteq> set (busy ?b')" using f(3) by auto
  have old: "int (card (set (dots t) - set (busy b))) \<le> lives t" if "t \<in> set (ships b)" for t
    using assms that by (simp add: lives_cover_def)
  have lt: "card (set (dots s) - set (busy ?b')) < card (set (dots s) - set (busy b))"
    using kill(2,5) f(3) by (intro card_diff_hit [of d]) (auto simp: is_hit_def)
  have ls: "int (card (set (dots s) - set (busy b))) \<le> lives s"
    using old [of s] kill(3) by simp
  have one: "lives s = 1" using lt ls kill(6) by linarith
  have "int (card (set (dots t) - set (busy ?b'))) \<le> lives t" if "t \<in> set (ships ?b')" for t
  proof (cases "t \<in> set r1 \<union> set r2")
    case True
    then have "t \<in> set (ships b)" using kill(3) by auto
    then show ?thesis
      using old [of t] card_diff_mono [OF sub, of "dots t"] by linarith
  next
    case False
    then have t: "t = ?s'" using that f(1) by auto
    show ?thesis unfolding t using lt ls by simp
  qed
  moreover have "sunk_ships ?b' = sunk_ships b + 1"
    using kill(3) f(1) one by (simp add: sunk_ships_def)
  ultimately show ?thesis using assms f(2) by (simp add: lives_cover_def)
qed

lemma run_ops_Cons: "run_ops (c # ops) b = run_ops ops (apply_op c b)"
  by (simp add: run_ops_def)

lemma lives_cover_run:
  "lives_cover b \<Longrightarrow> list_all vessel_ok ops \<Longrightarrow> Begin \<notin> set ops \<Longrightarrow> lives_cover (run_ops ops b)"
proof (induction ops arbitrary: b)
  case Nil
  then show ?case by (simp add: run_ops_def)
next
  case (Cons c ops)
  have "lives_cover (apply_op c b)"
  proof (cases c)
    case (Add_vessel st h l)
    then show ?thesis using Cons.prems lives_cover_add by simp
  next
    case Begin
    then show ?thesis using Cons.prems by simp
  next
    case (Fire d)
    then show ?thesis using Cons.prems lives_cover_shot by simp
  qed
  then show ?case using Cons by (simp add: run_ops_Cons)
qed

lemma fresh_fleet_run:
  "fresh_fleet b \<Longrightarrow> list_all vessel_ok ops \<Longrightarrow> begin_before_fire ops \<Longrightarrow>
     lives_cover (run_ops ops b)"
proof (induction ops arbitrary: b)
  case Nil
  then show ?case by (simp add: run_ops_def fresh_fleet_cover)
next
  case (Cons c ops)
  show ?case
  proof (cases c)
    case (Add_vessel st h l)
    then show ?thesis
      using Cons fresh_fleet_add by (simp add: run_ops_Cons begin_before_fire_def)
  next
    case Begin
    then show ?thesis
      using Cons fresh_fleet_begin by (simp add: run_ops_Cons begin_before_fire_def)
  next
    case (Fire d)
    then have "lives_cover (run_ops (c # ops) b)"
      using Cons.prems fresh_fleet_cover
      by (intro lives_cover_run) (auto simp: begin_before_fire_def)
    then show ?thesis .
  qed
qed

text \<open>
  Claim C7, first as the claim states it: a \<open>begin\<close> after a sinking shot empties the
  busy list, the same deck can be shot again, the lives of the vessel go below 0 and the
  counter goes up a second time.
\<close>

theorem sunk_counter_counterexample:
  "count (run_ops [Add_vessel (Dot 0 0) True 1, Begin, Fire (Dot 0 0), Begin, Fire (Dot 0 0)]
            (Board 6 False))
   \<noteq> sunk_ships (run_ops [Add_vessel (Dot 0 0) True 1, Begin, Fire (Dot 0 0), Begin, Fire (Dot 0 0)]
            (Board 6 False))"
  by code_simp

text \<open>
  Claim C7, as amended. On every board reached from a fresh one by calls of
  \<open>add_ship\<close> (with newly built vessels of length at least 1), \<open>begin\<close> and \<open>shot\<close>
  among which no \<open>begin\<close> follows a \<open>shot\<close>, the counter equals the number of vessels
  with no lives; and on every board a call of \<open>shot\<close> leaves the counter as it is or
  adds exactly 1 to it.
\<close>

theorem sunk_counter_invariant:
  assumes "list_all vessel_ok ops" and "begin_before_fire ops"
  shows "count (run_ops ops (Board n hid)) = sunk_ships (run_ops ops (Board n hid)) \<and>
         (\<forall>b d. wf_board b \<longrightarrow>
                  count (snd (shot b d)) = count b \<or> count (snd (shot b d)) = count b + 1)"
proof -
  have "lives_cover (run_ops ops (Board n hid))"
    using assms fresh_fleet_Board by (rule fresh_fleet_run [rotated])
  then have 1: "count (run_ops ops (Board n hid)) = sunk_ships (run_ops ops (Board n hid))"
    by (simp add: lives_cover_def)
  have 2: "count (snd (shot b d)) = count b \<or> count (snd (shot b d)) = count b + 1" for b d
    using shot_loop_count [of d "[]" "ships b" "b\<lparr>busy := busy b @ [d]\<rparr>"]
    by (auto simp: shot_def Let_def)
  show ?thesis using 1 2 by blast
qed

theorem sunk_counter_invariant_witness:
  "list_all vessel_ok [Add_vessel (Dot 0 0) True 2, Begin, Fire (Dot 0 0), Fire (Dot 0 1)] \<and>
   begin_before_fire [Add_vessel (Dot 0 0) True 2, Begin, Fire (Dot 0 0), Fire (Dot 0 1)] \<and>
   count (run_ops [Add_vessel (Dot 0 0) True 2, Begin, Fire (Dot 0 0), Fire (Dot 0 1)] (Board 6 False)) = 1 \<and>
   sunk_ships (run_ops [Add_vessel (Dot 0 0) True 2, Begin, Fire (Dot 0 0), Fire (Dot 0 1)] (Board 6 False)) = 1 \<and>
   wf_board (run_ops [Add_vessel (Dot 0 0) True 2, Begin, Fire (Dot 0 0)] (Board 6 False)) \<and>
   count (snd (shot (run_ops [Add_vessel (Dot 0 0) True 2, Begin, Fire (Dot 0 0)] (Board 6 False)) (Dot 0 1)))
     = count (run_ops [Add_vessel (Dot 0 0) True 2, Begin, Fire (Dot 0 0)] (Board 6 False)) + 1"
proof -
  let ?ops = "[Add_vessel (Dot 0 0) True 2, Begin, Fire (Dot 0 0), Fire (Dot 0 1)]"
  let ?b = "run_ops [Add_vessel (Dot 0 0) True 2, Begin, Fire (Dot 0 0)] (Board 6 False)"
  have h1: "list_all vessel_ok ?ops" by simp
  have h2: "begin_before_fire ?ops" by (simp add: begin_before_fire_def)
  have h3: "count (run_ops ?ops (Board 6 False)) = 1" by code_simp
  have h4: "wf_board ?b" by code_simp
  have h5: "count (snd (shot ?b (Dot 0 1))) \<noteq> count ?b" by code_simp
  from sunk_counter_invariant [OF h1 h2, of 6 False]
  have a: "count (run_ops ?ops (Board 6 False)) = sunk_ships (run_ops ?ops (Board 6 False))"
    and s: "\<forall>b d. wf_board b \<longrightarrow>
              count (snd (shot b d)) = count b \<or> count (snd (shot b d)) = count b + 1"
    by blast+
  from s h4 h5 have "count (snd (shot ?b (Dot 0 1))) = count ?b + 1" by blast
  with a h1 h2 h3 h4 show ?thesis by simp
qed

section \<open>Geometry of ships\<close>

lemma dots_deck: "dots s = map (deck s) [0..length_ship s - 1]"
  by (simp add: dots_def deck_def)

lemma set_dots: "set (dots s) = deck s ` {0..length_ship s - 1}"
  by (simp add: dots_deck)

lemma deck_eq [simp]: "deck s i = deck s j \<longleftrightarrow> i = j"
  by (simp add: deck_def)

lemma distinct_dots: "distinct (dots s)"
  by (simp add: dots_deck distinct_map inj_on_def)

lemma card_dots: "card (set (dots s)) = nat (length_ship s)"
  using distinct_card [OF distinct_dots, of s] by (simp add: length_dots)

lemma deck_in_dots: "deck s i \<in> set (dots s) \<longleftrightarrow> 0 \<le> i \<and> i \<le> length_ship s - 1"
  by (auto simp: set_dots)

lemma near_refl [simp]: "near c c"
  by (simp add: near_def)

lemma near_sym: "near c d \<Longrightarrow> near d c"
  by (simp add: near_def abs_minus_commute)

lemma near_deck: "near (deck s i) (deck s j) \<longleftrightarrow> \<bar>i - j\<bar> \<le> 1"
  by (auto simp: near_def deck_def)

lemma neighbours4_near: "d \<in> neighbours4 c \<Longrightarrow> near c d"
  by (auto simp: neighbours4_def near_def)

lemma deck_neighbour: "deck s j \<in> neighbours4 (deck s i) \<longleftrightarrow> (j = i + 1 \<or> j = i - 1)"
  by (auto simp: neighbours4_def deck_def)

lemma bracket_deck:
  "i \<noteq> j \<Longrightarrow> bracket_ends (deck s i) (deck s j) = {deck s (min i j - 1), deck s (max i j + 1)}"
  by (auto simp: bracket_ends_def deck_def min_def max_def)

lemma in_rect_margin:
  assumes "in_rect s d" and "1 \<le> length_ship s"
  shows "in_margin s d"
proof -
  obtain a c where d: "d = Dot a c" by (cases d)
  define u where "u = (if horizontal s then c - dot_y (start s) else a - dot_x (start s))"
  define i where "i = max 0 (min (length_ship s - 1) u)"
  have i: "0 \<le> i" "i \<le> length_ship s - 1" using assms(2) by (auto simp: i_def)
  have "near (deck s i) d"
    using assms unfolding d in_rect_def near_def deck_def i_def u_def
    by (auto split: if_splits)
  then show ?thesis using i by (auto simp: in_margin_def deck_in_dots intro: bexI [of _ "deck s i"])
qed

lemma apart_sym: "apart s t \<Longrightarrow> apart t s"
  by (auto simp: apart_def dest: near_sym)

lemma apart_disjoint: "apart s t \<Longrightarrow> set (dots s) \<inter> set (dots t) = {}"
  using near_refl by (fastforce simp: apart_def)

lemma apart_margin: "apart s t \<Longrightarrow> in_margin s d \<Longrightarrow> d \<notin> set (dots t)"
  by (auto simp: apart_def in_margin_def)

lemma apart_lives [simp]: "apart (s\<lparr>lives := l\<rparr>) t = apart s t" "apart t (s\<lparr>lives := l\<rparr>) = apart t s"
  by (simp_all add: apart_def)

lemma ships_apart_append:
  "ships_apart (xs @ ys) \<longleftrightarrow>
     ships_apart xs \<and> ships_apart ys \<and> (\<forall>s \<in> set xs. \<forall>t \<in> set ys. apart s t)"
  by (induction xs) auto

lemma ships_apart_mid:
  assumes "ships_apart (r1 @ s # r2)" and "t \<in> set r1 \<union> set r2"
  shows "apart s t"
  using assms by (auto simp: ships_apart_append dest: apart_sym)

lemma ships_apart_lives:
  "ships_apart (r1 @ s\<lparr>lives := l\<rparr> # r2) = ships_apart (r1 @ s # r2)"
  by (simp add: ships_apart_append)

lemma ships_apart_pair:
  "ships_apart ss \<Longrightarrow> s \<in> set ss \<Longrightarrow> t \<in> set ss \<Longrightarrow> s \<noteq> t \<Longrightarrow> apart s t"
  by (induction ss) (auto dest: apart_sym)

section \<open>Placing the fleet\<close>

lemma setup_inv_Board: "setup_inv (Board n hid)"
  by (simp add: setup_inv_def Board_def)

lemma setup_inv_add:
  assumes inv: "setup_inv b" and l: "1 \<le> l" "l \<le> 3"
    and ok: "fst (add_ship b (Ship st h l)) = Inr u"
  shows "setup_inv (snd (add_ship b (Ship st h l)))"
    and "length (ships (snd (add_ship b (Ship st h l)))) = length (ships b) + 1"
proof -
  let ?t = "Ship st h l" and ?b' = "snd (add_ship b (Ship st h l))"
  from ok have nofail: "add_ship b ?t \<noteq> (Inl BoardShipFailureException, b)" by auto
  have free: "\<forall>d \<in> set (dots ?t). \<not> is_out b d \<and> d \<notin> set (busy b)"
    and sh: "ships ?b' = ships b @ [?t]"
    and cnt: "count ?b' = count b"
    and bz: "set (busy ?b') =
               set (busy b) \<union> set (dots ?t) \<union> {c \<in> set (contour_cells ?t). \<not> is_out b c}"
    using nofail by (cases rule: add_ship_cases [of b ?t]; simp)+
  have out: "is_out ?b' = is_out b" by (rule ext) (simp add: is_out_def)
  have tl: "length_ship ?t = l" "lives ?t = l" by (simp_all add: Ship_def)
  have ap: "apart s ?t" if "s \<in> set (ships b)" for s
    unfolding apart_def
  proof (intro ballI notI)
    fix c d assume "c \<in> set (dots s)" "d \<in> set (dots ?t)" "near c d"
    then have "in_margin s d" by (auto simp: in_margin_def)
    moreover have "\<not> is_out b d" "d \<notin> set (busy b)" using free \<open>d \<in> set (dots ?t)\<close> by auto
    ultimately show False using inv that by (auto simp: setup_inv_def)
  qed
  have 1: "\<forall>s \<in> set (ships ?b'). 1 \<le> length_ship s \<and> length_ship s \<le> 3 \<and> lives s = length_ship s \<and>
             (\<forall>d \<in> set (dots s). \<not> is_out ?b' d)"
    using inv l free tl unfolding sh out by (auto simp: setup_inv_def)
  have 2: "ships_apart (ships ?b')"
    using inv ap unfolding sh by (simp add: ships_apart_append setup_inv_def)
  have 3: "d \<in> set (busy ?b')" if "s \<in> set (ships ?b')" "in_margin s d" "\<not> is_out ?b' d" for s d
  proof (cases "s \<in> set (ships b)")
    case True
    then have "d \<in> set (busy b)" using inv that(2,3) out by (auto simp: setup_inv_def)
    then show ?thesis using bz by simp
  next
    case False
    then have "s = ?t" using that(1) sh by simp
    then have "d \<in> set (contour_cells ?t)"
      using that(2) in_margin_rect in_rect_contour_cells by blast
    then show ?thesis using bz that(3) out by simp
  qed
  show "setup_inv ?b'"
    unfolding setup_inv_def using 1 2 3 cnt inv by (auto simp: setup_inv_def)
  show "length (ships ?b') = length (ships b) + 1" using sh by simp
qed

lemma try_ship_inv:
  assumes "setup_inv b" and "1 \<le> l" and "l \<le> 3" and "try_ship b l attempts = Some b'"
  shows "setup_inv b' \<and> length (ships b') = length (ships b) + 1 \<and> size_board b' = size_board b"
  using assms
proof (induction b l attempts rule: try_ship.induct)
  case (1 b l)
  then show ?case by simp
next
  case (2 b l st h attempts)
  show ?case
  proof (cases rule: add_ship_cases [of b "Ship st h l"])
    case fail
    then show ?thesis using 2 by simp
  next
    case ok
    obtain c where c: "add_ship b (Ship st h l) = (Inr (), c)"
      using ok(1) by (cases "add_ship b (Ship st h l)") auto
    then have "b' = c" using "2.prems"(4) by simp
    moreover have "c = snd (add_ship b (Ship st h l))" using c by simp
    ultimately show ?thesis
      using setup_inv_add [OF "2.prems"(1,2,3) ok(1)] by simp
  qed
qed

lemma place_fleet_inv:
  assumes "setup_inv b" and "\<forall>l \<in> set ls. 1 \<le> l \<and> l \<le> 3" and "place_fleet b ls rnd = Some b'"
  shows "setup_inv b' \<and> length (ships b') = length (ships b) + length ls \<and>
         size_board b' = size_board b"
  using assms
proof (induction b ls rnd rule: place_fleet.induct)
  case (1 b rnd)
  then show ?case by simp
next
  case (2 b l ls)
  then show ?case by simp
next
  case (3 b l ls attempts rnd)
  from "3.prems"(3) obtain c where c: "try_ship b l (take 2000 attempts) = Some c"
    and r: "place_fleet c ls rnd = Some b'"
    by (auto split: option.splits)
  have cc: "setup_inv c \<and> length (ships c) = length (ships b) + 1 \<and> size_board c = size_board b"
    using try_ship_inv [OF "3.prems"(1) _ _ c] "3.prems"(2) by simp
  have "setup_inv b' \<and> length (ships b') = length (ships c) + length ls \<and>
        size_board b' = size_board c"
    using "3.IH" [OF c] cc "3.prems"(2) r by simp
  then show ?case using cc by simp
qed

lemma no_wounded_fresh: "lives s = length_ship s \<Longrightarrow> \<not> wounded s"
  by (simp add: wounded_def)

lemma try_board_hunt:
  assumes "try_board 6 rnd = Some b"
  shows "hunt_inv b []" and "count b = 0"
proof -
  from assms obtain c where c: "place_fleet (Board 6 False) [3, 2, 2, 1, 1, 1, 1] rnd = Some c"
    and b: "b = begin_board c"
    by (auto simp: try_board_def split: option.splits)
  have "setup_inv c \<and> length (ships c) = length (ships (Board 6 False)) + length [3, 2, 2, 1, 1, 1, 1::int] \<and>
        size_board c = size_board (Board 6 False)"
    by (rule place_fleet_inv [OF setup_inv_Board _ c]) simp
  then have inv: "setup_inv c" and len: "length (ships c) = 7" and sz: "size_board c = 6"
    by (simp_all add: Board_def)
  have f: "ships b = ships c" "count b = count c" "busy b = []" "size_board b = 6"
    using sz by (simp_all add: b begin_board_def)
  have out: "is_out b = is_out c" by (rule ext) (simp add: is_out_def f sz)
  have fl: "fleet_ok b"
    using inv len unfolding fleet_ok_def f out by (auto simp: setup_inv_def)
  have lv: "lives s = int (card (set (dots s) - set (busy b)))" if "s \<in> set (ships b)" for s
  proof -
    have "lives s = length_ship s" "1 \<le> length_ship s"
      using inv that f(1) by (auto simp: setup_inv_def)
    then show ?thesis by (simp add: f card_dots)
  qed
  have "filter (\<lambda>s. lives s = 0) (ships b) = []"
    using inv f(1) by (auto simp: filter_empty_conv setup_inv_def)
  then have cn: "count b = sunk_ships b"
    using inv f by (simp add: sunk_ships_def setup_inv_def)
  have nw: "\<not> wounded s" if "s \<in> set (ships b)" for s
  proof -
    have "lives s = length_ship s" using inv that f(1) by (auto simp: setup_inv_def)
    then show ?thesis by (rule no_wounded_fresh)
  qed
  show "hunt_inv b []"
    using fl lv cn nw by (simp add: hunt_inv_def play_inv_def)
  show "count b = 0" using inv f by (simp add: setup_inv_def)
qed

section \<open>The candidates of a hunt\<close>

lemma card_split_busy:
  "card (set (dots s)) = card (set (dots s) - B) + card (set (dots s) \<inter> B)"
proof -
  have "set (dots s) = (set (dots s) - B) \<union> (set (dots s) \<inter> B)" by auto
  moreover have "card ((set (dots s) - B) \<union> (set (dots s) \<inter> B)) =
                 card (set (dots s) - B) + card (set (dots s) \<inter> B)"
    by (rule card_Un_disjoint) auto
  ultimately show ?thesis by simp
qed

lemma busy_decks:
  assumes "play_inv b" and "s \<in> set (ships b)"
  shows "int (card (set (dots s) \<inter> set (busy b))) = length_ship s - lives s"
    and "1 \<le> length_ship s" and "length_ship s \<le> 3" and "0 \<le> lives s"
    and "lives s \<le> length_ship s"
proof -
  have l: "1 \<le> length_ship s" "length_ship s \<le> 3"
    using assms by (auto simp: play_inv_def fleet_ok_def)
  have lv: "lives s = int (card (set (dots s) - set (busy b)))"
    using assms by (simp add: play_inv_def)
  have "int (card (set (dots s))) = length_ship s" using l by (simp add: card_dots)
  then show "int (card (set (dots s) \<inter> set (busy b))) = length_ship s - lives s"
    using card_split_busy [of s "set (busy b)"] lv by linarith
  then show "lives s \<le> length_ship s" by linarith
  show "1 \<le> length_ship s" "length_ship s \<le> 3" by (rule l)+
  show "0 \<le> lives s" using lv by simp
qed

lemma hunt_wounded:
  assumes "hunt_inv b prev" and "prev \<noteq> []"
  obtains s where "s \<in> set (ships b)" and "wounded s"
    and "set prev = set (dots s) \<inter> set (busy b)"
    and "int (length prev) = length_ship s - lives s"
proof -
  from assms obtain s where s: "s \<in> set (ships b)" "wounded s"
    by (auto simp: hunt_inv_def)
  then have sp: "set prev = set (dots s) \<inter> set (busy b)"
    using assms(1) by (simp add: hunt_inv_def)
  have "distinct prev" using assms(1) by (simp add: hunt_inv_def)
  then have "length prev = card (set (dots s) \<inter> set (busy b))"
    using sp distinct_card [of prev] by simp
  moreover have "play_inv b" using assms(1) by (simp add: hunt_inv_def)
  ultimately have "int (length prev) = length_ship s - lives s"
    using busy_decks(1) [of b s] s(1) by simp
  then show ?thesis using that s sp by blast
qed

lemma wounded_unique:
  assumes "hunt_inv b prev" and "s \<in> set (ships b)" and "wounded s"
    and "t \<in> set (ships b)" and "wounded t"
  shows "s = t"
proof (rule ccontr)
  assume "s \<noteq> t"
  have p: "play_inv b" using assms(1) by (simp add: hunt_inv_def)
  then have "apart s t"
    using assms(2,4) \<open>s \<noteq> t\<close> by (auto simp: play_inv_def fleet_ok_def intro: ships_apart_pair)
  then have dj: "set (dots s) \<inter> set (dots t) = {}" by (rule apart_disjoint)
  have "set prev = set (dots s) \<inter> set (busy b)"
    using assms(1,2,3) unfolding hunt_inv_def by blast
  moreover have "set prev = set (dots t) \<inter> set (busy b)"
    using assms(1,4,5) unfolding hunt_inv_def by blast
  ultimately have "set (dots s) \<inter> set (busy b) = {}" using dj by auto
  then have "length_ship s - lives s = 0" using busy_decks(1) [OF p assms(2)] by simp
  then show False using assms(3) by (simp add: wounded_def)
qed

lemma prev_shape [consumes 1, case_names none one two]:
  assumes "hunt_inv b prev"
  obtains (none) "prev = []"
  | (one) h where "prev = [h]"
  | (two) h1 h2 where "prev = [h1, h2]"
proof (cases "prev = []")
  case True
  then show ?thesis using none by simp
next
  case False
  then obtain s where s: "s \<in> set (ships b)" "wounded s"
    "int (length prev) = length_ship s - lives s"
    using assms by (auto elim: hunt_wounded)
  have "play_inv b" using assms by (simp add: hunt_inv_def)
  then have "length_ship s \<le> 3" using s(1) by (rule busy_decks(3))
  then have "length prev \<le> 2" using s(2,3) by (simp add: wounded_def)
  moreover have "length prev \<noteq> 0" using False by simp
  ultimately have "length prev = 1 \<or> length prev = 2" by linarith
  then show ?thesis
  proof
    assume "length prev = 1"
    then obtain h where "prev = [h]" by (cases prev) auto
    then show ?thesis by (rule one)
  next
    assume "length prev = 2"
    then obtain h1 h2 where "prev = [h1, h2]"
      by (cases prev; cases "tl prev") auto
    then show ?thesis by (rule two)
  qed
qed

lemma pair_decks:
  assumes "hunt_inv b [h1, h2]" and "s \<in> set (ships b)" and "wounded s"
  obtains i j where "h1 = deck s i" and "h2 = deck s j"
    and "j = i + 1 \<or> j = i - 1"
    and "0 \<le> i" and "i \<le> length_ship s - 1" and "0 \<le> j" and "j \<le> length_ship s - 1"
proof -
  have sp: "{h1, h2} = set (dots s) \<inter> set (busy b)"
    using assms by (auto simp: hunt_inv_def)
  then have "h1 \<in> set (dots s)" "h2 \<in> set (dots s)" by auto
  then obtain i j where ij: "h1 = deck s i" "0 \<le> i" "i \<le> length_ship s - 1"
    "h2 = deck s j" "0 \<le> j" "j \<le> length_ship s - 1"
    by (auto simp: set_dots)
  have "h2 \<in> neighbours4 h1" using assms(1) by (simp add: hunt_inv_def)
  then have "j = i + 1 \<or> j = i - 1" unfolding ij(1,4) by (simp add: deck_neighbour)
  then show ?thesis using that ij by blast
qed

lemma cands_near:
  assumes inv: "hunt_inv b prev" and ne: "prev \<noteq> []"
    and s: "s \<in> set (ships b)" "wounded s"
    and d: "d \<in> set (ai_brain prev b)"
  shows "in_margin s d"
  using inv
proof (cases rule: prev_shape)
  case none
  then show ?thesis using ne by simp
next
  case (one h)
  have "set prev = set (dots s) \<inter> set (busy b)" using inv s by (simp add: hunt_inv_def)
  then have "h \<in> set (dots s)" using one by auto
  moreover have "near h d"
    using d unfolding one ai_brain_single_set by (auto intro: neighbours4_near)
  ultimately show ?thesis by (auto simp: in_margin_def)
next
  case (two h1 h2)
  obtain i j where ij: "h1 = deck s i" "h2 = deck s j" "j = i + 1 \<or> j = i - 1"
    "0 \<le> i" "i \<le> length_ship s - 1" "0 \<le> j" "j \<le> length_ship s - 1"
    using pair_decks [OF inv [unfolded two] s] by blast
  have "i \<noteq> j" using ij(3) by auto
  then have "d = deck s (min i j - 1) \<or> d = deck s (max i j + 1)"
    using d unfolding two ai_brain_pair_set ij(1,2) by (auto simp: bracket_deck)
  then have "near (deck s (min i j)) d \<or> near (deck s (max i j)) d"
    by (auto simp: near_deck)
  moreover have "deck s (min i j) \<in> set (dots s)" "deck s (max i j) \<in> set (dots s)"
    using ij by (auto simp: deck_in_dots min_def max_def)
  ultimately show ?thesis by (auto simp: in_margin_def)
qed

lemma hunt_nonempty:
  assumes inv: "hunt_inv b prev" and run: "count b \<noteq> 7"
  shows "ai_brain prev b \<noteq> []"
proof -
  have p: "play_inv b" using inv by (simp add: hunt_inv_def)
  from inv show ?thesis
  proof (cases rule: prev_shape)
    case none
    have "sunk_ships b \<noteq> int (length (ships b))"
      using p run by (simp add: play_inv_def fleet_ok_def)
    then have "length (filter (\<lambda>s. lives s = 0) (ships b)) \<noteq> length (ships b)"
      by (simp add: sunk_ships_def)
    then obtain s where s: "s \<in> set (ships b)" "lives s \<noteq> 0"
      by (metis (mono_tags, lifting) filter_True)
    have "\<not> wounded s"
    proof
      assume "wounded s"
      then have "set prev = set (dots s) \<inter> set (busy b)" using inv s(1) by (simp add: hunt_inv_def)
      then have "length_ship s - lives s = 0"
        using busy_decks(1) [OF p s(1)] none by simp
      then show False using \<open>wounded s\<close> by (simp add: wounded_def)
    qed
    then have "lives s = length_ship s"
      using s(2) busy_decks(4,5) [OF p s(1)] by (simp add: wounded_def)
    then have "card (set (dots s) \<inter> set (busy b)) = 0"
      using busy_decks(1) [OF p s(1)] by simp
    then have free: "set (dots s) \<inter> set (busy b) = {}" by simp
    have "deck s 0 \<in> set (dots s)"
      using busy_decks(2) [OF p s(1)] by (simp add: deck_in_dots)
    moreover from this have "\<not> is_out b (deck s 0)"
      using p s(1) by (auto simp: play_inv_def fleet_ok_def)
    moreover have "size_board b = 6" using p by (simp add: play_inv_def fleet_ok_def)
    ultimately have "deck s 0 \<in> cells6 - set (busy b)"
      using free by (auto simp: cells6_def is_out_def)
    then have "set (ai_brain [] b) \<noteq> {}"
      unfolding ai_brain_nil_set by auto
    then show ?thesis using none by auto
  next
    case (one h)
    obtain s where s: "s \<in> set (ships b)" "wounded s"
      "set prev = set (dots s) \<inter> set (busy b)" "int (length prev) = length_ship s - lives s"
      using hunt_wounded [OF inv] one by blast
    have "h \<in> set (dots s)" using s(3) one by auto
    then obtain i where i: "h = deck s i" "0 \<le> i" "i \<le> length_ship s - 1"
      by (auto simp: set_dots)
    have L: "2 \<le> length_ship s" using s(2,4) one by (simp add: wounded_def)
    define j where "j = (if i + 1 \<le> length_ship s - 1 then i + 1 else i - 1)"
    have j: "0 \<le> j" "j \<le> length_ship s - 1" "j \<noteq> i" "j = i + 1 \<or> j = i - 1"
      using i L by (auto simp: j_def)
    have "deck s j \<notin> set (busy b)"
    proof
      assume "deck s j \<in> set (busy b)"
      then have "deck s j \<in> set prev" using s(3) j by (simp add: deck_in_dots)
      then show False using one i(1) j(3) by simp
    qed
    moreover have "deck s j \<in> neighbours4 h" unfolding i(1) using j(4) by (simp add: deck_neighbour)
    ultimately have "deck s j \<in> set (ai_brain [h] b)" by (simp add: ai_brain_single_set)
    then show ?thesis using one by auto
  next
    case (two h1 h2)
    obtain s where s: "s \<in> set (ships b)" "wounded s"
      "set prev = set (dots s) \<inter> set (busy b)" "int (length prev) = length_ship s - lives s"
      using hunt_wounded [OF inv] two by blast
    obtain i j where ij: "h1 = deck s i" "h2 = deck s j" "j = i + 1 \<or> j = i - 1"
      "0 \<le> i" "i \<le> length_ship s - 1" "0 \<le> j" "j \<le> length_ship s - 1"
      using pair_decks [OF inv [unfolded two] s(1,2)] by blast
    have L: "length_ship s = 3"
      using s(2,4) two busy_decks(3) [OF p s(1)] by (simp add: wounded_def)
    define k where "k = 3 - i - j"
    have k: "0 \<le> k" "k \<le> length_ship s - 1" "k \<noteq> i" "k \<noteq> j"
      "k = min i j - 1 \<or> k = max i j + 1"
      using ij(3-7) L unfolding k_def min_def max_def by presburger+
    have "deck s k \<notin> set (busy b)"
    proof
      assume "deck s k \<in> set (busy b)"
      then have "deck s k \<in> set prev" using s(3) k by (simp add: deck_in_dots)
      then show False using two ij(1,2) k(3,4) by simp
    qed
    moreover have "deck s k \<in> bracket_ends h1 h2"
      unfolding ij(1,2) using ij(3) k(5) by (auto simp: bracket_deck)
    ultimately have "deck s k \<in> set (ai_brain [h1, h2] b)" by (simp add: ai_brain_pair_set)
    then show ?thesis using two by auto
  qed
qed

section \<open>A shot of the computer keeps the invariant\<close>

lemma contour_cells_lives [simp]: "contour_cells (s\<lparr>lives := l\<rparr>) = contour_cells s"
  by (simp add: contour_cells_def)

lemma card_free_pos: "d \<in> set xs \<Longrightarrow> d \<notin> B \<Longrightarrow> 0 < card (set xs - B)"
  by (auto simp: card_gt_0_iff)

lemma wounded_busy_deck:
  assumes "play_inv b" and "s \<in> set (ships b)" and "wounded s"
  shows "set (dots s) \<inter> set (busy b) \<noteq> {}"
proof
  assume "set (dots s) \<inter> set (busy b) = {}"
  then have "length_ship s - lives s = 0" using busy_decks(1) [OF assms(1,2)] by simp
  then show False using assms(3) by (simp add: wounded_def)
qed

lemma other_not_wounded:
  assumes inv: "hunt_inv b prev" and d: "d \<in> set (ai_brain prev b)"
    and s: "d \<in> set (dots s)" and t: "t \<in> set (ships b)" and ap: "apart s t"
  shows "\<not> wounded t"
proof
  assume w: "wounded t"
  have p: "play_inv b" using inv by (simp add: hunt_inv_def)
  have "set prev = set (dots t) \<inter> set (busy b)" using inv t w by (simp add: hunt_inv_def)
  then have "prev \<noteq> []" using wounded_busy_deck [OF p t w] by auto
  then have "in_margin t d" by (rule cands_near [OF inv _ t w d])
  then show False using apart_margin [OF apart_sym [OF ap]] s by blast
qed

lemma hit_prev:
  assumes inv: "hunt_inv b prev" and d: "d \<in> set (ai_brain prev b)"
    and s: "s \<in> set (ships b)" "d \<in> set (dots s)" "d \<notin> set (busy b)"
  shows "set prev = set (dots s) \<inter> set (busy b)"
proof (cases "wounded s")
  case True
  then show ?thesis using inv s(1) by (simp add: hunt_inv_def)
next
  case False
  have p: "play_inv b" using inv by (simp add: hunt_inv_def)
  have "prev = []"
  proof (rule ccontr)
    assume "prev \<noteq> []"
    then obtain t where t: "t \<in> set (ships b)" "wounded t"
      using inv by (auto simp: hunt_inv_def)
    then have "s \<noteq> t" using False by auto
    then have "apart s t"
      using p s(1) t(1) by (auto simp: play_inv_def fleet_ok_def intro: ships_apart_pair)
    then show False using other_not_wounded [OF inv d s(2) t(1)] t(2) by simp
  qed
  moreover have "set (dots s) \<inter> set (busy b) = {}"
  proof -
    have "0 < card (set (dots s) - set (busy b))" using s(2,3) by (rule card_free_pos)
    moreover have "lives s = int (card (set (dots s) - set (busy b)))"
      using p s(1) by (simp add: play_inv_def)
    ultimately have "0 < lives s" by linarith
    then have "lives s = length_ship s"
      using False busy_decks(5) [OF p s(1)] by (simp add: wounded_def)
    then have "card (set (dots s) \<inter> set (busy b)) = 0"
      using busy_decks(1) [OF p s(1)] by simp
    then show ?thesis by simp
  qed
  ultimately show ?thesis by simp
qed

lemma prev_busy:
  assumes "hunt_inv b prev"
  shows "set prev \<subseteq> set (busy b)"
proof (cases "prev = []")
  case True
  then show ?thesis by simp
next
  case False
  then show ?thesis using assms by (auto elim!: hunt_wounded)
qed

lemma fleet_ok_replace:
  assumes "fleet_ok b" and "ships b = r1 @ s # r2"
    and "ships b' = r1 @ s\<lparr>lives := l\<rparr> # r2" and "size_board b' = size_board b"
  shows "fleet_ok b'"
proof -
  have out: "is_out b' = is_out b" by (rule ext) (simp add: is_out_def assms(4))
  show ?thesis
    using assms(1) unfolding fleet_ok_def assms(2,3,4) out
    by (auto simp: ships_apart_lives)
qed

lemma hunt_step_miss:
  assumes inv: "hunt_inv b prev"
    and nd: "\<forall>s \<in> set (ships b). \<not> is_hit s d"
    and f: "ships b' = ships b" "count b' = count b" "size_board b' = size_board b"
      "set (busy b') = insert d (set (busy b))"
  shows "hunt_inv b' prev"
proof -
  have p: "play_inv b" using inv by (simp add: hunt_inv_def)
  have out: "is_out b' = is_out b" by (rule ext) (simp add: is_out_def f(3))
  have fl: "fleet_ok b'" using p unfolding play_inv_def fleet_ok_def f out by simp
  have same: "set (dots s) - set (busy b') = set (dots s) - set (busy b)"
    "set (dots s) \<inter> set (busy b') = set (dots s) \<inter> set (busy b)"
    if "s \<in> set (ships b)" for s
    using nd that f(4) by (auto simp: is_hit_def)
  have "play_inv b'"
    using p fl same(1) unfolding play_inv_def f(1,2) sunk_ships_def by simp
  then show ?thesis
    using inv same(2) unfolding hunt_inv_def f(1) by simp
qed

lemma hunt_step_wound:
  assumes inv: "hunt_inv b prev" and d: "d \<in> set (ai_brain prev b)"
    and nb: "d \<notin> set (busy b)"
    and sp: "ships b = r1 @ s # r2" and hit: "is_hit s d" and w: "lives s - 1 > 0"
    and f: "ships b' = r1 @ s\<lparr>lives := lives s - 1\<rparr> # r2" "count b' = count b"
      "size_board b' = size_board b" "set (busy b') = insert d (set (busy b))"
  shows "hunt_inv b' (prev @ [d])"
proof -
  let ?s' = "s\<lparr>lives := lives s - 1\<rparr>"
  have p: "play_inv b" using inv by (simp add: hunt_inv_def)
  have s: "s \<in> set (ships b)" "d \<in> set (dots s)" using sp hit by (simp_all add: is_hit_def)
  have ap: "apart s t" if "t \<in> set r1 \<union> set r2" for t
    using p sp that by (auto simp: play_inv_def fleet_ok_def intro: ships_apart_mid)
  have old: "t \<in> set (ships b)" if "t \<in> set r1 \<union> set r2" for t using sp that by auto
  have fl: "fleet_ok b'"
    using p sp f(1,3) by (auto simp: play_inv_def intro: fleet_ok_replace)
  have same: "set (dots t) - set (busy b') = set (dots t) - set (busy b)"
    if "t \<in> set r1 \<union> set r2" for t
    using apart_disjoint [OF ap [OF that]] s(2) f(4) by auto
  have ls: "lives s = int (card (set (dots s) - set (busy b)))"
    using p s(1) by (simp add: play_inv_def)
  have "set (dots s) - set (busy b') = (set (dots s) - set (busy b)) - {d}"
    using f(4) by auto
  moreover have "d \<in> set (dots s) - set (busy b)" using s(2) nb by simp
  ultimately have "card (set (dots s) - set (busy b')) = card (set (dots s) - set (busy b)) - 1"
    by (simp add: card_Diff_singleton)
  then have ls': "lives ?s' = int (card (set (dots ?s') - set (busy b')))"
    using ls w by simp
  have lv: "lives t = int (card (set (dots t) - set (busy b')))" if "t \<in> set (ships b')" for t
  proof (cases "t \<in> set r1 \<union> set r2")
    case True
    then show ?thesis using p old [OF True] same [OF True] by (simp add: play_inv_def)
  next
    case False
    then have "t = ?s'" using that f(1) by auto
    then show ?thesis using ls' by simp
  qed
  have "sunk_ships b' = sunk_ships b" using sp f(1) w by (simp add: sunk_ships_def)
  then have p': "play_inv b'"
    using p fl lv f(2) by (simp add: play_inv_def)
  have ws': "wounded ?s'"
    using w busy_decks(5) [OF p s(1)] by (simp add: wounded_def)
  have q1: "set (prev @ [d]) = set (dots t) \<inter> set (busy b')"
    if "t \<in> set (ships b')" "wounded t" for t
  proof (cases "t \<in> set r1 \<union> set r2")
    case True
    then show ?thesis
      using other_not_wounded [OF inv d s(2) old [OF True] ap [OF True]] that(2) by simp
  next
    case False
    then have t: "t = ?s'" using that(1) f(1) by auto
    have "set prev = set (dots s) \<inter> set (busy b)" using inv d s nb by (rule hit_prev)
    then show ?thesis unfolding t using s(2) f(4) by auto
  qed
  have q2: "\<exists>t \<in> set (ships b'). wounded t" using ws' f(1) by auto
  have q3: "distinct (prev @ [d])"
    using inv prev_busy [OF inv] nb by (auto simp: hunt_inv_def)
  have q4: "(prev @ [d]) ! 1 \<in> neighbours4 ((prev @ [d]) ! 0)" if "length (prev @ [d]) = 2"
  proof -
    from that obtain h where h: "prev = [h]" by (cases prev) auto
    then have "d \<in> neighbours4 h" using d by (simp add: ai_brain_single_set)
    then show ?thesis by (simp add: h)
  qed
  show ?thesis
    unfolding hunt_inv_def using p' q1 q2 q3 q4 by blast
qed

lemma hunt_step_kill:
  assumes inv: "hunt_inv b prev" and d: "d \<in> set (ai_brain prev b)"
    and nb: "d \<notin> set (busy b)"
    and sp: "ships b = r1 @ s # r2" and hit: "is_hit s d" and k: "\<not> lives s - 1 > 0"
    and f: "ships b' = r1 @ s\<lparr>lives := lives s - 1\<rparr> # r2" "count b' = count b + 1"
      "size_board b' = size_board b"
      "set (busy b') = insert d (set (busy b)) \<union> {c \<in> set (contour_cells s). \<not> is_out b c}"
  shows "hunt_inv b' []"
proof -
  let ?s' = "s\<lparr>lives := lives s - 1\<rparr>"
  have p: "play_inv b" using inv by (simp add: hunt_inv_def)
  have s: "s \<in> set (ships b)" "d \<in> set (dots s)" using sp hit by (simp_all add: is_hit_def)
  have L: "1 \<le> length_ship s" using p s(1) by (rule busy_decks(2))
  have ap: "apart s t" if "t \<in> set r1 \<union> set r2" for t
    using p sp that by (auto simp: play_inv_def fleet_ok_def intro: ships_apart_mid)
  have old: "t \<in> set (ships b)" if "t \<in> set r1 \<union> set r2" for t using sp that by auto
  have fl: "fleet_ok b'"
    using p sp f(1,3) by (auto simp: play_inv_def intro: fleet_ok_replace)
  have new: "in_margin s c" if "c \<in> set (busy b')" "c \<notin> set (busy b)" for c
  proof (cases "c = d")
    case True
    then show ?thesis using s(2) by (auto simp: in_margin_def intro: bexI [of _ d])
  next
    case False
    then have "c \<in> set (contour_cells s)" using that f(4) by auto
    then show ?thesis using L by (simp add: in_rect_contour_cells [symmetric] in_rect_margin)
  qed
  have same: "set (dots t) - set (busy b') = set (dots t) - set (busy b)"
    if "t \<in> set r1 \<union> set r2" for t
  proof -
    have "c \<notin> set (dots t)" if "c \<in> set (busy b')" "c \<notin> set (busy b)" for c
      using apart_margin [OF ap [OF \<open>t \<in> set r1 \<union> set r2\<close>] new [OF that]] .
    moreover have "set (busy b) \<subseteq> set (busy b')" using f(4) by auto
    ultimately show ?thesis by auto
  qed
  have ls: "lives s = int (card (set (dots s) - set (busy b)))"
    using p s(1) by (simp add: play_inv_def)
  have din: "d \<in> set (dots s) - set (busy b)" using s(2) nb by simp
  have "0 < card (set (dots s) - set (busy b))" using s(2) nb by (rule card_free_pos)
  then have one: "lives s = 1" and c1: "card (set (dots s) - set (busy b)) = 1"
    using ls k by linarith+
  from c1 obtain x where "set (dots s) - set (busy b) = {x}" by (rule card_1_singletonE)
  then have "set (dots s) - set (busy b) = {d}" using din by auto
  then have "set (dots s) - set (busy b') = {}" using f(4) by auto
  then have ls': "lives ?s' = int (card (set (dots ?s') - set (busy b')))"
    using one by simp
  have lv: "lives t = int (card (set (dots t) - set (busy b')))" if "t \<in> set (ships b')" for t
  proof (cases "t \<in> set r1 \<union> set r2")
    case True
    then show ?thesis using p old [OF True] same [OF True] by (simp add: play_inv_def)
  next
    case False
    then have "t = ?s'" using that f(1) by auto
    then show ?thesis using ls' by simp
  qed
  have "sunk_ships b' = sunk_ships b + 1" using sp f(1) one by (simp add: sunk_ships_def)
  then have p': "play_inv b'"
    using p fl lv f(2) by (simp add: play_inv_def)
  have nw: "\<not> wounded t" if "t \<in> set (ships b')" for t
  proof (cases "t \<in> set r1 \<union> set r2")
    case True
    then show ?thesis
      using other_not_wounded [OF inv d s(2) old [OF True] ap [OF True]] by simp
  next
    case False
    then have "t = ?s'" using that f(1) by auto
    then show ?thesis using one by (simp add: wounded_def)
  qed
  show ?thesis
    unfolding hunt_inv_def using p' nw by simp
qed

lemma hunt_step:
  assumes inv: "hunt_inv b prev" and d: "d \<in> set (ai_brain prev b)"
  shows "case shot b d of
           (Inl e, b') \<Rightarrow> b' = b
         | (Inr repeat, b') \<Rightarrow>
             hunt_inv b' (if count b \<noteq> count b' then []
                          else if repeat then prev @ [d] else prev)"
proof (cases rule: shot_cases [of b d])
  case (error e)
  then show ?thesis by simp
next
  case miss
  let ?b' = "b\<lparr>busy := busy b @ [d], field := set_cell (field b) d CellPoint\<rparr>"
  have "hunt_inv ?b' prev"
    using inv miss(3) by (rule hunt_step_miss) simp_all
  then show ?thesis unfolding miss(4) by simp
next
  case (wound r1 s r2)
  let ?b' = "b\<lparr>busy := busy b @ [d], field := set_cell (field b) d CellX,
               ships := r1 @ s\<lparr>lives := lives s - 1\<rparr> # r2\<rparr>"
  have "hunt_inv ?b' (prev @ [d])"
    using inv d wound(2,3,5,6) by (rule hunt_step_wound) simp_all
  then show ?thesis unfolding wound(7) by simp
next
  case (kill r1 s r2)
  let ?b' = "contour (b\<lparr>busy := busy b @ [d], field := set_cell (field b) d CellX,
                        ships := r1 @ s\<lparr>lives := lives s - 1\<rparr> # r2,
                        count := count b + 1\<rparr>) (s\<lparr>lives := lives s - 1\<rparr>) True"
  have "hunt_inv ?b' []"
    using inv d kill(2,3,5,6)
    by (rule hunt_step_kill) (auto simp: busy_contour is_out_def)
  then show ?thesis unfolding kill(7) by simp
qed

section \<open>The computer always has a candidate\<close>

lemma good_step:
  assumes "good g"
  shows "good (ai_step r g)"
proof (cases g)
  case (Asking k e prev)
  then have k: "k = count e" and run: "count e \<noteq> 7" and inv: "hunt_inv e prev"
    using assms by (simp_all add: good_def)
  have ne: "ai_brain prev e \<noteq> []" using inv run by (rule hunt_nonempty)
  define d where "d = ai_brain prev e ! (r mod length (ai_brain prev e))"
  have d: "d \<in> set (ai_brain prev e)" using ne by (simp add: d_def)
  obtain out e' where sh: "shot e d = (out, e')" by (cases "shot e d")
  have step: "ai_step r g =
      (case out of
         Inl err \<Rightarrow> Asking k e' prev
       | Inr repeat \<Rightarrow>
           if count e' = 7 then Over e'
           else Asking (count e') e'
                  (if k \<noteq> count e' then [] else if repeat then prev @ [d] else prev))"
    using ne sh by (simp add: Asking Let_def d_def split: sum.splits)
  show ?thesis
  proof (cases out)
    case (Inl err)
    then have "e' = e" using hunt_step [OF inv d] sh by simp
    then show ?thesis using step Inl k run inv by (simp add: good_def)
  next
    case (Inr repeat)
    then have "hunt_inv e' (if count e \<noteq> count e' then []
                            else if repeat then prev @ [d] else prev)"
      using hunt_step [OF inv d] sh by simp
    then show ?thesis using step Inr k by (simp add: good_def)
  qed
next
  case (Over e)
  then show ?thesis by (simp add: good_def)
next
  case Crashed
  then show ?thesis using assms by (simp add: good_def)
qed

lemma good_run: "good g \<Longrightarrow> good (ai_run rs g)"
  unfolding ai_run_def by (induction rs arbitrary: g) (simp_all add: good_step)

text \<open>
  Claim C5. Take any board that \<open>try_board\<close> returns for the game (size 6, fleet
  3, 2, 2, 1, 1, 1, 1) and let the computer play on it, whatever \<open>choice\<close> draws.
  Then \<open>choice\<close> is never given an empty list, and in every state in which the computer
  is about to ask, the list that \<open>ai_brain\<close> returns is not empty.
\<close>

theorem ai_candidates_nonempty:
  assumes "try_board 6 rnd = Some b"
  shows "ai_run rs (Asking (count b) b []) \<noteq> Crashed \<and>
         (\<forall>k e prev. ai_run rs (Asking (count b) b []) = Asking k e prev \<longrightarrow>
                       ai_brain prev e \<noteq> [])"
proof -
  have "good (Asking (count b) b [])"
    using try_board_hunt [OF assms] by (simp add: good_def)
  then have g: "good (ai_run rs (Asking (count b) b []))" by (rule good_run)
  then have 1: "ai_run rs (Asking (count b) b []) \<noteq> Crashed"
    by (auto simp: good_def)
  have 2: "ai_brain prev e \<noteq> []" if "ai_run rs (Asking (count b) b []) = Asking k e prev" for k e prev
  proof -
    have "hunt_inv e prev" "count e \<noteq> 7" using g that by (simp_all add: good_def)
    then show ?thesis by (rule hunt_nonempty)
  qed
  show ?thesis using 1 2 by blast
qed

theorem ai_candidates_nonempty_witness:
  "try_board 6 [[(Dot 5 5, True), (Dot 0 0, True)], [(Dot 2 0, True)], [(Dot 2 3, True)],
                [(Dot 0 5, False)], [(Dot 4 0, True)], [(Dot 4 2, True)], [(Dot 4 4, False)]]
     \<noteq> None \<and>
   ai_run [0, 1, 5]
     (Asking
        (count (the (try_board 6 [[(Dot 5 5, True), (Dot 0 0, True)], [(Dot 2 0, True)],
                 [(Dot 2 3, True)], [(Dot 0 5, False)], [(Dot 4 0, True)], [(Dot 4 2, True)],
                 [(Dot 4 4, False)]])))
        (the (try_board 6 [[(Dot 5 5, True), (Dot 0 0, True)], [(Dot 2 0, True)],
                 [(Dot 2 3, True)], [(Dot 0 5, False)], [(Dot 4 0, True)], [(Dot 4 2, True)],
                 [(Dot 4 4, False)]]))
        [])
     \<noteq> Crashed"
proof -
  let ?rnd = "[[(Dot 5 5, True), (Dot 0 0, True)], [(Dot 2 0, True)], [(Dot 2 3, True)],
               [(Dot 0 5, False)], [(Dot 4 0, True)], [(Dot 4 2, True)], [(Dot 4 4, False)]]"
  have h: "try_board 6 ?rnd \<noteq> None" by code_simp
  then have "try_board 6 ?rnd = Some (the (try_board 6 ?rnd))" by simp
  from ai_candidates_nonempty [OF this, of "[0, 1, 5]"] h show ?thesis by blast
qed

section \<open>The shape of the cell matrix\<close>

text \<open>
  The matrix keeps its shape under every operation, and a dot for which \<open>is_out\<close>
  answers \<open>False\<close> indexes it in range: the assignments to \<open>field\<close> never raise.
\<close>

lemma writes_in_range:
  assumes "wf_board b" and "\<not> is_out b d"
  shows "nat (dot_x d) < length (field b) \<and> nat (dot_y d) < length (field b ! nat (dot_x d))"
proof -
  have x: "nat (dot_x d) < nat (size_board b)" and y: "nat (dot_y d) < nat (size_board b)"
    using assms(2) by (auto simp: is_out_def)
  have "nat (dot_x d) < length (field b)" using assms(1) x by (simp add: wf_board_def)
  moreover from this have "length (field b ! nat (dot_x d)) = nat (size_board b)"
    using assms(1) by (simp add: wf_board_def list_all_length)
  ultimately show ?thesis using y by simp
qed

lemma row_lengths_update:
  assumes "\<forall>n < length xs. length (xs ! n) = m" and "n < length xs"
  shows "length (xs[i := (xs ! i)[j := v]] ! n) = m"
proof (cases "i < length xs")
  case True
  then show ?thesis using assms by (simp add: nth_list_update)
next
  case False
  then show ?thesis using assms by (simp add: list_update_beyond)
qed

lemma wf_set_cell:
  assumes "wf_board b" and "size_board b' = size_board b"
    and "field b' = set_cell (field b) d v"
  shows "wf_board b'"
  using assms by (simp add: wf_board_def set_cell_def list_all_length row_lengths_update)

lemma wf_same_field:
  "wf_board b \<Longrightarrow> size_board b' = size_board b \<Longrightarrow> field b' = field b \<Longrightarrow> wf_board b'"
  by (simp add: wf_board_def)

lemma wf_Board: "wf_board (Board n hid)"
  by (simp add: wf_board_def Board_def list_all_length)

lemma wf_begin: "wf_board b \<Longrightarrow> wf_board (begin_board b)"
  by (simp add: wf_board_def begin_board_def)

lemma wf_contour_step: "wf_board b \<Longrightarrow> wf_board (contour_step v c b)"
  by (cases v) (auto simp: contour_step_def intro: wf_set_cell wf_same_field)

lemma wf_fold_contour_step: "wf_board b \<Longrightarrow> wf_board (fold (contour_step v) cs b)"
  by (induction cs arbitrary: b) (simp_all add: wf_contour_step)

lemma wf_contour: "wf_board b \<Longrightarrow> wf_board (contour b s v)"
  by (simp add: contour_fold wf_fold_contour_step)

lemma wf_place_dot: "wf_board b \<Longrightarrow> wf_board (place_dot d b)"
  by (auto simp: place_dot_def intro: wf_set_cell)

lemma wf_fold_place_dot: "wf_board b \<Longrightarrow> wf_board (fold place_dot ds b)"
  by (induction ds arbitrary: b) (simp_all add: wf_place_dot)

lemma wf_add_ship: "wf_board b \<Longrightarrow> wf_board (snd (add_ship b s))"
proof (cases "check_dots b (dots s)")
  case None
  assume "wf_board b"
  then have "wf_board (contour (fold place_dot (dots s) b) s False)"
    by (intro wf_contour wf_fold_place_dot)
  then show ?thesis using None by (auto simp: add_ship_def Let_def intro: wf_same_field)
next
  case (Some e)
  assume "wf_board b"
  then show ?thesis using Some by (simp add: add_ship_def)
qed

lemma wf_shot: "wf_board b \<Longrightarrow> wf_board (snd (shot b d))"
proof (cases rule: shot_cases [of b d])
  case (error e)
  assume "wf_board b"
  then show ?thesis using error by simp
next
  case miss
  assume "wf_board b"
  then show ?thesis unfolding miss(4) by (auto intro: wf_set_cell)
next
  case (wound r1 s r2)
  assume "wf_board b"
  then show ?thesis unfolding wound(7) by (auto intro: wf_set_cell)
next
  case (kill r1 s r2)
  assume "wf_board b"
  then show ?thesis unfolding kill(7) by (auto intro!: wf_contour intro: wf_set_cell)
qed

lemma wf_run_ops: "wf_board b \<Longrightarrow> wf_board (run_ops ops b)"
proof (induction ops arbitrary: b)
  case Nil
  then show ?case by (simp add: run_ops_def)
next
  case (Cons c ops)
  have "wf_board (apply_op c b)"
    using Cons.prems by (cases c) (simp_all add: wf_add_ship wf_begin wf_shot)
  then show ?case using Cons.IH by (simp add: run_ops_Cons)
qed

end
